theory Spec2Isabelle
  imports Main "HOL-Library.Signed_Division" "HOL-Library.Multiset"
begin

section \<open>Conventions of the embedding\<close>

text \<open>
  The queues of package \<open>queue\<close> are embedded as they run on one goroutine: the
  \<open>TryLock\<close>/\<open>Unlock\<close> pairs that open every method are then no-ops and are left out.
  \<^item> \<open>int64\<close> and \<open>int\<close> counters are HOL integers: a slice never holds \<open>2 ^ 63\<close> elements, so
    the counters of the source never wrap.
  \<^item> An index expression outside the slice is a run-time panic: a value \<open>Inl IndexOutOfRange\<close>
    of the type \<open>panic + 'a\<close>.
  \<^item> A call that waits on a condition variable (\<open>putLock.Wait()\<close>, \<open>takeLock.Wait()\<close>) has
    nobody to wake it on one goroutine, and a loop may spin forever: such a call has the
    result \<open>None\<close> of an option type, and \<open>Some r\<close> when it returns \<open>r\<close>.
  \<^item> \<open>reflect.DeepEqual\<close> on the element type is HOL equality.
  \<^item> \<open>*new(E)\<close>, the zero value of the element type, is the parameter \<open>zero\<close>.
  \<^item> \<open>json.Marshal\<close> and \<open>json.Unmarshal\<close> on a slice of elements belong to the standard
    library: they are the parameters \<open>marshal\<close> and \<open>unmarshal\<close>, with \<open>Inl err\<close> for a
    returned error. A returned Go \<open>error\<close> is an option, \<open>None\<close> for \<open>nil\<close>.
\<close>

datatype panic = IndexOutOfRange

section \<open>BlockingQueue (array backed)\<close>

record 'a BlockingQueue =
  bq_items :: "'a list"
  bq_size :: int
  bq_cap :: int

definition NewBlockingQueue :: "int \<Rightarrow> 'a BlockingQueue" where
  "NewBlockingQueue c = \<lparr>bq_items = [], bq_size = 0, bq_cap = c\<rparr>"

definition BQ_Count :: "'a BlockingQueue \<Rightarrow> int" where
  "BQ_Count q = bq_size q"

definition BQ_IsEmpty :: "'a BlockingQueue \<Rightarrow> bool" where
  "BQ_IsEmpty q = (BQ_Count q = 0)"

definition BQ_IsNotEmpty :: "'a BlockingQueue \<Rightarrow> bool" where
  "BQ_IsNotEmpty q = (\<not> BQ_IsEmpty q)"

definition BQ_Clear :: "'a BlockingQueue \<Rightarrow> 'a BlockingQueue" where
  "BQ_Clear q = q\<lparr>bq_items := [], bq_size := 0\<rparr>"

definition BQ_Peek :: "'a \<Rightarrow> 'a BlockingQueue \<Rightarrow> panic + ('a \<times> bool)" where
  "BQ_Peek zero q =
     (if bq_size q = 0 then Inr (zero, False)
      else (case bq_items q of
              [] \<Rightarrow> Inl IndexOutOfRange
            | x # rest \<Rightarrow> Inr (x, True)))"

definition BQ_TryEnqueue :: "'a BlockingQueue \<Rightarrow> 'a \<Rightarrow> 'a BlockingQueue \<times> bool" where
  "BQ_TryEnqueue q v =
     (if bq_cap q = bq_size q then (q, False)
      else (q\<lparr>bq_items := bq_items q @ [v], bq_size := bq_size q + 1\<rparr>, True))"

definition BQ_TryDequeue ::
  "'a \<Rightarrow> 'a BlockingQueue \<Rightarrow> panic + ('a BlockingQueue \<times> 'a \<times> bool)" where
  "BQ_TryDequeue zero q =
     (if bq_size q = 0 then Inr (q, zero, False)
      else (case bq_items q of
              [] \<Rightarrow> Inl IndexOutOfRange
            | x # rest \<Rightarrow> Inr (q\<lparr>bq_items := rest, bq_size := bq_size q - 1\<rparr>, x, True)))"

text \<open>\<open>Enqueue\<close> waits while \<open>cap == size\<close>; the wait has no end here.\<close>

definition BQ_Enqueue :: "'a BlockingQueue \<Rightarrow> 'a \<Rightarrow> ('a BlockingQueue \<times> bool) option" where
  "BQ_Enqueue q v =
     (if bq_cap q = bq_size q then None
      else Some (q\<lparr>bq_items := bq_items q @ [v], bq_size := bq_size q + 1\<rparr>, True))"

text \<open>\<open>Dequeue\<close> waits while \<open>size == 0\<close>.\<close>

definition BQ_Dequeue ::
  "'a BlockingQueue \<Rightarrow> (panic + ('a BlockingQueue \<times> 'a \<times> bool)) option" where
  "BQ_Dequeue q =
     (if bq_size q = 0 then None
      else Some (case bq_items q of
              [] \<Rightarrow> Inl IndexOutOfRange
            | x # rest \<Rightarrow> Inr (q\<lparr>bq_items := rest, bq_size := bq_size q - 1\<rparr>, x, True)))"

text \<open>
  The loop shared by \<open>Remove\<close> and \<open>RemoveWhere\<close>: every item the callback rejects is
  appended to a fresh slice.
\<close>

fun keep_items :: "('a \<Rightarrow> bool) \<Rightarrow> 'a list \<Rightarrow> 'a list \<Rightarrow> 'a list" where
  "keep_items callback [] kept = kept"
| "keep_items callback (item # rest) kept =
     keep_items callback rest (if \<not> callback item then kept @ [item] else kept)"

definition BQ_RemoveWhere :: "'a BlockingQueue \<Rightarrow> ('a \<Rightarrow> bool) \<Rightarrow> 'a BlockingQueue" where
  "BQ_RemoveWhere q callback =
     (let kept = keep_items callback (bq_items q) []
      in q\<lparr>bq_items := kept, bq_size := int (length kept)\<rparr>)"

definition BQ_Remove :: "'a BlockingQueue \<Rightarrow> 'a \<Rightarrow> 'a BlockingQueue" where
  "BQ_Remove q v =
     (let kept = keep_items (\<lambda>item. item = v) (bq_items q) []
      in q\<lparr>bq_items := kept, bq_size := int (length kept)\<rparr>)"

definition BQ_ToArray :: "'a BlockingQueue \<Rightarrow> 'a list" where
  "BQ_ToArray q = bq_items q"

definition BQ_ToJSON :: "('a list \<Rightarrow> 'e + 'd) \<Rightarrow> 'a BlockingQueue \<Rightarrow> 'e + 'd" where
  "BQ_ToJSON marshal q = marshal (BQ_ToArray q)"

definition BQ_MarshalJSON :: "('a list \<Rightarrow> 'e + 'd) \<Rightarrow> 'a BlockingQueue \<Rightarrow> 'e + 'd" where
  "BQ_MarshalJSON marshal q = BQ_ToJSON marshal q"

text \<open>The loop of \<open>UnmarshalJSON\<close> over the decoded values; it waits while the queue is full.\<close>

fun BQ_put_values :: "'a BlockingQueue \<Rightarrow> 'a list \<Rightarrow> 'a BlockingQueue option" where
  "BQ_put_values q [] = Some q"
| "BQ_put_values q (v # rest) =
     (if bq_size q = bq_cap q then None
      else BQ_put_values (q\<lparr>bq_items := bq_items q @ [v], bq_size := bq_size q + 1\<rparr>) rest)"

definition BQ_UnmarshalJSON ::
  "('d \<Rightarrow> 'e + 'a list) \<Rightarrow> 'a BlockingQueue \<Rightarrow> 'd \<Rightarrow> ('a BlockingQueue \<times> 'e option) option" where
  "BQ_UnmarshalJSON unmarshal q data =
     (case unmarshal data of
        Inl err \<Rightarrow> Some (q, Some err)
      | Inr vals \<Rightarrow> map_option (\<lambda>q'. (q', None)) (BQ_put_values q vals))"

section \<open>LinkedList and LinkedBlockingQueue\<close>

text \<open>
  \<open>list.LinkedList\<close> wraps the doubly linked list of \<open>container/list\<close>; the embedding keeps
  the sequence of its element values, front first.
\<close>

type_synonym 'a LinkedList = "'a list"


definition LL_Count :: "'a LinkedList \<Rightarrow> int" where
  "LL_Count l = int (length l)"

definition LL_IsEmpty :: "'a LinkedList \<Rightarrow> bool" where
  "LL_IsEmpty l = (LL_Count l = 0)"

definition LL_IsNotEmpty :: "'a LinkedList \<Rightarrow> bool" where
  "LL_IsNotEmpty l = (\<not> LL_IsEmpty l)"

definition LL_Push :: "'a LinkedList \<Rightarrow> 'a list \<Rightarrow> 'a LinkedList" where
  "LL_Push l vals = l @ vals"



definition LL_Clear :: "'a LinkedList \<Rightarrow> 'a LinkedList" where
  "LL_Clear l = []"

definition LL_First :: "'a \<Rightarrow> 'a LinkedList \<Rightarrow> 'a \<times> bool" where
  "LL_First zero l = (case l of [] \<Rightarrow> (zero, False) | x # rest \<Rightarrow> (x, True))"


definition LL_ToArray :: "'a LinkedList \<Rightarrow> 'a list" where
  "LL_ToArray l = l"



definition LL_UnmarshalJSON ::
  "('d \<Rightarrow> 'e + 'a list) \<Rightarrow> 'a LinkedList \<Rightarrow> 'd \<Rightarrow> 'a LinkedList \<times> 'e option" where
  "LL_UnmarshalJSON unmarshal l data =
     (case unmarshal data of
        Inl err \<Rightarrow> (l, Some err)
      | Inr vals \<Rightarrow> (l @ vals, None))"

record 'a LinkedBlockingQueue =
  lbq_items :: "'a LinkedList"
  lbq_cap :: int


definition LBQ_Count :: "'a LinkedBlockingQueue \<Rightarrow> int" where
  "LBQ_Count q = LL_Count (lbq_items q)"

definition LBQ_IsEmpty :: "'a LinkedBlockingQueue \<Rightarrow> bool" where
  "LBQ_IsEmpty q = LL_IsEmpty (lbq_items q)"

definition LBQ_Clear :: "'a LinkedBlockingQueue \<Rightarrow> 'a LinkedBlockingQueue" where
  "LBQ_Clear q = q\<lparr>lbq_items := LL_Clear (lbq_items q)\<rparr>"

definition LBQ_Peek :: "'a \<Rightarrow> 'a LinkedBlockingQueue \<Rightarrow> 'a \<times> bool" where
  "LBQ_Peek zero q =
     (if LL_IsEmpty (lbq_items q) then (zero, False) else LL_First zero (lbq_items q))"

definition LBQ_TryEnqueue ::
  "'a LinkedBlockingQueue \<Rightarrow> 'a \<Rightarrow> 'a LinkedBlockingQueue \<times> bool" where
  "LBQ_TryEnqueue q v =
     (if lbq_cap q = LL_Count (lbq_items q) then (q, False)
      else (q\<lparr>lbq_items := LL_Push (lbq_items q) [v]\<rparr>, True))"






definition LBQ_ToArray :: "'a LinkedBlockingQueue \<Rightarrow> 'a list" where
  "LBQ_ToArray q = LL_ToArray (lbq_items q)"


fun LBQ_put_values :: "'a LinkedBlockingQueue \<Rightarrow> 'a list \<Rightarrow> 'a LinkedBlockingQueue option" where
  "LBQ_put_values q [] = Some q"
| "LBQ_put_values q (v # rest) =
     (if LL_Count (lbq_items q) = lbq_cap q then None
      else LBQ_put_values (q\<lparr>lbq_items := LL_Push (lbq_items q) [v]\<rparr>) rest)"

definition LBQ_UnmarshalJSON ::
  "('d \<Rightarrow> 'e + 'a list) \<Rightarrow> 'a LinkedBlockingQueue \<Rightarrow> 'd
     \<Rightarrow> ('a LinkedBlockingQueue \<times> 'e option) option" where
  "LBQ_UnmarshalJSON unmarshal q data =
     (case unmarshal data of
        Inl err \<Rightarrow> Some (q, Some err)
      | Inr vals \<Rightarrow> map_option (\<lambda>q'. (q', None)) (LBQ_put_values q vals))"

section \<open>PriorityQueue (binary heap in a slice)\<close>

record 'a PriorityQueue =
  pq_size :: int
  pq_items :: "'a list"
  pq_comparator :: "'a \<Rightarrow> 'a \<Rightarrow> int"

text \<open>The index expression \<open>items[i]\<close>.\<close>

definition at_index :: "'a list \<Rightarrow> int \<Rightarrow> panic + 'a" where
  "at_index xs i =
     (if 0 \<le> i \<and> i < int (length xs) then Inr (xs ! nat i) else Inl IndexOutOfRange)"

definition less_pq :: "'a PriorityQueue \<Rightarrow> int \<Rightarrow> int \<Rightarrow> panic + bool" where
  "less_pq q i j =
     (case at_index (pq_items q) i of
        Inl p \<Rightarrow> Inl p
      | Inr a \<Rightarrow> (case at_index (pq_items q) j of
                    Inl p \<Rightarrow> Inl p
                  | Inr b \<Rightarrow> Inr (pq_comparator q a b < 0)))"

definition swap_pq :: "'a PriorityQueue \<Rightarrow> int \<Rightarrow> int \<Rightarrow> panic + 'a PriorityQueue" where
  "swap_pq q i j =
     (case at_index (pq_items q) j of
        Inl p \<Rightarrow> Inl p
      | Inr b \<Rightarrow> (case at_index (pq_items q) i of
                    Inl p \<Rightarrow> Inl p
                  | Inr a \<Rightarrow> Inr (q\<lparr>pq_items := (pq_items q)[nat i := b, nat j := a]\<rparr>)))"

definition NewPriorityQueue_empty :: "('a \<Rightarrow> 'a \<Rightarrow> int) \<Rightarrow> 'a PriorityQueue" where
  "NewPriorityQueue_empty comparator = \<lparr>pq_size = 0, pq_items = [], pq_comparator = comparator\<rparr>"

definition PQ_Count :: "'a PriorityQueue \<Rightarrow> int" where
  "PQ_Count q = pq_size q"

definition PQ_IsEmpty :: "'a PriorityQueue \<Rightarrow> bool" where
  "PQ_IsEmpty q = (PQ_Count q = 0)"

definition PQ_Clear :: "'a PriorityQueue \<Rightarrow> 'a PriorityQueue" where
  "PQ_Clear q = q\<lparr>pq_items := [], pq_size := 0\<rparr>"

definition PQ_Peek :: "'a \<Rightarrow> 'a PriorityQueue \<Rightarrow> panic + ('a \<times> bool)" where
  "PQ_Peek zero q =
     (if pq_size q = 0 then Inr (zero, False)
      else (case at_index (pq_items q) 0 of
              Inl p \<Rightarrow> Inl p
            | Inr x \<Rightarrow> Inr (x, True)))"

text \<open>
  The loop of \<open>Enqueue\<close>:
  \<^verbatim>\<open>for index := q.size - 1; q.less(index, (index-1)/2); index = (index - 1) / 2\<close>.
  Go's \<open>/\<close> truncates towards zero (\<open>sdiv\<close>), so the parent of index 0 is index 0.
  Nothing in the loop bounds the number of rounds: it ends when \<open>less\<close> answers false.
\<close>

partial_function (option) PQ_sift_up ::
  "'a PriorityQueue \<Rightarrow> int \<Rightarrow> (panic + 'a PriorityQueue) option" where
  "PQ_sift_up q index =
     (case less_pq q index ((index - 1) sdiv 2) of
        Inl p \<Rightarrow> Some (Inl p)
      | Inr b \<Rightarrow>
          if b then
            (case swap_pq q index ((index - 1) sdiv 2) of
               Inl p \<Rightarrow> Some (Inl p)
             | Inr q' \<Rightarrow> PQ_sift_up q' ((index - 1) sdiv 2))
          else Some (Inr q))"

declare PQ_sift_up.simps [code]

definition PQ_Enqueue ::
  "'a PriorityQueue \<Rightarrow> 'a \<Rightarrow> (panic + ('a PriorityQueue \<times> bool)) option" where
  "PQ_Enqueue q v =
     (let q1 = q\<lparr>pq_items := pq_items q @ [v], pq_size := pq_size q + 1\<rparr>
      in (case PQ_sift_up q1 (pq_size q1 - 1) of
            None \<Rightarrow> None
          | Some (Inl p) \<Rightarrow> Some (Inl p)
          | Some (Inr q2) \<Rightarrow> Some (Inr (q2, True))))"

text \<open>The \<open>for\<close> loop of \<open>Dequeue\<close>, with \<open>index\<close> and \<open>lastIndex\<close> as arguments.\<close>

function PQ_sift_down :: "'a PriorityQueue \<Rightarrow> int \<Rightarrow> int \<Rightarrow> panic + 'a PriorityQueue" where
  "PQ_sift_down q index lastIndex =
     (let leftIndex = index * 2 + 1 in
      if leftIndex > lastIndex \<or> leftIndex < 0 then Inr q
      else
        (case (if leftIndex + 1 \<le> lastIndex then less_pq q (leftIndex + 1) leftIndex
               else Inr False) of
           Inl p \<Rightarrow> Inl p
         | Inr right_smaller \<Rightarrow>
             (let swapIndex = (if right_smaller then leftIndex + 1 else leftIndex) in
              (case less_pq q swapIndex index of
                 Inl p \<Rightarrow> Inl p
               | Inr b \<Rightarrow>
                   if \<not> b then Inr q
                   else (case swap_pq q swapIndex index of
                           Inl p \<Rightarrow> Inl p
                         | Inr q' \<Rightarrow> PQ_sift_down q' swapIndex lastIndex)))))"
  by pat_completeness auto
termination
  by (relation "measure (\<lambda>(q, index, lastIndex). nat (lastIndex - index))")
     (auto split: if_splits)

declare PQ_sift_down.simps [simp del]

text \<open>
  \<open>q.items[:q.size-1]\<close> panics when the bound is negative or beyond the capacity of the
  slice; it follows a successful \<open>swap(0, q.size-1)\<close>, after which the bound is a valid index.
\<close>

definition PQ_Dequeue ::
  "'a \<Rightarrow> 'a PriorityQueue \<Rightarrow> panic + ('a PriorityQueue \<times> 'a \<times> bool)" where
  "PQ_Dequeue zero q =
     (if pq_size q = 0 then Inr (q, zero, False)
      else
        (case at_index (pq_items q) 0 of
           Inl p \<Rightarrow> Inl p
         | Inr v \<Rightarrow>
             (case swap_pq q 0 (pq_size q - 1) of
                Inl p \<Rightarrow> Inl p
              | Inr q1 \<Rightarrow>
                  (let q2 = q1\<lparr>pq_items := take (nat (pq_size q1 - 1)) (pq_items q1),
                                pq_size := pq_size q1 - 1\<rparr>
                   in (case PQ_sift_down q2 0 (pq_size q2 - 1) of
                         Inl p \<Rightarrow> Inl p
                       | Inr q3 \<Rightarrow> Inr (q3, v, True))))))"

text \<open>\<open>slices.DeleteFunc\<close> keeps, in order, the elements the callback rejects.\<close>

definition PQ_RemoveWhere :: "'a PriorityQueue \<Rightarrow> ('a \<Rightarrow> bool) \<Rightarrow> 'a PriorityQueue" where
  "PQ_RemoveWhere q callback =
     (let kept = filter (\<lambda>e. \<not> callback e) (pq_items q)
      in q\<lparr>pq_items := kept, pq_size := int (length kept)\<rparr>)"

definition PQ_Remove :: "'a PriorityQueue \<Rightarrow> 'a \<Rightarrow> 'a PriorityQueue" where
  "PQ_Remove q v = PQ_RemoveWhere q (\<lambda>e. e = v)"

definition PQ_ToArray :: "'a PriorityQueue \<Rightarrow> 'a list" where
  "PQ_ToArray q = pq_items q"


text \<open>The loop \<open>for _, item := range items { q.Enqueue(item) }\<close>.\<close>

fun PQ_enqueue_values ::
  "'a PriorityQueue \<Rightarrow> 'a list \<Rightarrow> (panic + 'a PriorityQueue) option" where
  "PQ_enqueue_values q [] = Some (Inr q)"
| "PQ_enqueue_values q (item # rest) =
     (case PQ_Enqueue q item of
        None \<Rightarrow> None
      | Some (Inl p) \<Rightarrow> Some (Inl p)
      | Some (Inr (q', ok)) \<Rightarrow> PQ_enqueue_values q' rest)"

definition NewPriorityQueue ::
  "('a \<Rightarrow> 'a \<Rightarrow> int) \<Rightarrow> 'a list \<Rightarrow> (panic + 'a PriorityQueue) option" where
  "NewPriorityQueue comparator vals = PQ_enqueue_values (NewPriorityQueue_empty comparator) vals"

text \<open>On a decoding error the method returns \<open>nil\<close>, as the source does.\<close>

definition PQ_UnmarshalJSON ::
  "('d \<Rightarrow> 'e + 'a list) \<Rightarrow> 'a PriorityQueue \<Rightarrow> 'd
     \<Rightarrow> (panic + ('a PriorityQueue \<times> 'e option)) option" where
  "PQ_UnmarshalJSON unmarshal q data =
     (case unmarshal data of
        Inl err \<Rightarrow> Some (Inr (q, None))
      | Inr vals \<Rightarrow>
          (case PQ_enqueue_values (PQ_Clear q) vals of
             None \<Rightarrow> None
           | Some (Inl p) \<Rightarrow> Some (Inl p)
           | Some (Inr q') \<Rightarrow> Some (Inr (q', None))))"

section \<open>PriorityBlockingQueue\<close>

record 'a PriorityBlockingQueue =
  pbq_items :: "'a PriorityQueue"
  pbq_cap :: int


definition PBQ_Count :: "'a PriorityBlockingQueue \<Rightarrow> int" where
  "PBQ_Count q = PQ_Count (pbq_items q)"

definition PBQ_Clear :: "'a PriorityBlockingQueue \<Rightarrow> 'a PriorityBlockingQueue" where
  "PBQ_Clear q = q\<lparr>pbq_items := PQ_Clear (pbq_items q)\<rparr>"

definition PBQ_Peek :: "'a \<Rightarrow> 'a PriorityBlockingQueue \<Rightarrow> panic + ('a \<times> bool)" where
  "PBQ_Peek zero q = PQ_Peek zero (pbq_items q)"

definition PBQ_TryEnqueue ::
  "'a PriorityBlockingQueue \<Rightarrow> 'a \<Rightarrow> (panic + ('a PriorityBlockingQueue \<times> bool)) option" where
  "PBQ_TryEnqueue q v =
     (if pbq_cap q = PQ_Count (pbq_items q) then Some (Inr (q, False))
      else (case PQ_Enqueue (pbq_items q) v of
              None \<Rightarrow> None
            | Some (Inl p) \<Rightarrow> Some (Inl p)
            | Some (Inr (h, ok)) \<Rightarrow> Some (Inr (q\<lparr>pbq_items := h\<rparr>, ok))))"


definition PBQ_Enqueue ::
  "'a PriorityBlockingQueue \<Rightarrow> 'a \<Rightarrow> (panic + ('a PriorityBlockingQueue \<times> bool)) option" where
  "PBQ_Enqueue q v =
     (if pbq_cap q = PQ_Count (pbq_items q) then None
      else (case PQ_Enqueue (pbq_items q) v of
              None \<Rightarrow> None
            | Some (Inl p) \<Rightarrow> Some (Inl p)
            | Some (Inr (h, ok)) \<Rightarrow> Some (Inr (q\<lparr>pbq_items := h\<rparr>, ok))))"

definition PBQ_Dequeue ::
  "'a \<Rightarrow> 'a PriorityBlockingQueue
     \<Rightarrow> (panic + ('a PriorityBlockingQueue \<times> 'a \<times> bool)) option" where
  "PBQ_Dequeue zero q =
     (if PQ_IsEmpty (pbq_items q) then None
      else Some (case PQ_Dequeue zero (pbq_items q) of
              Inl p \<Rightarrow> Inl p
            | Inr (h, v, ok) \<Rightarrow> Inr (q\<lparr>pbq_items := h\<rparr>, v, ok)))"



definition PBQ_ToArray :: "'a PriorityBlockingQueue \<Rightarrow> 'a list" where
  "PBQ_ToArray q = PQ_ToArray (pbq_items q)"


fun PBQ_put_values ::
  "'a PriorityBlockingQueue \<Rightarrow> 'a list \<Rightarrow> (panic + 'a PriorityBlockingQueue) option" where
  "PBQ_put_values q [] = Some (Inr q)"
| "PBQ_put_values q (v # rest) =
     (if pbq_cap q = PQ_Count (pbq_items q) then None
      else (case PQ_Enqueue (pbq_items q) v of
              None \<Rightarrow> None
            | Some (Inl p) \<Rightarrow> Some (Inl p)
            | Some (Inr (h, ok)) \<Rightarrow> PBQ_put_values (q\<lparr>pbq_items := h\<rparr>) rest))"

definition PBQ_UnmarshalJSON ::
  "('d \<Rightarrow> 'e + 'a list) \<Rightarrow> 'a PriorityBlockingQueue \<Rightarrow> 'd
     \<Rightarrow> (panic + ('a PriorityBlockingQueue \<times> 'e option)) option" where
  "PBQ_UnmarshalJSON unmarshal q data =
     (case unmarshal data of
        Inl err \<Rightarrow> Some (Inr (q, Some err))
      | Inr vals \<Rightarrow>
          (case PBQ_put_values (q\<lparr>pbq_items := PQ_Clear (pbq_items q)\<rparr>) vals of
             None \<Rightarrow> None
           | Some (Inl p) \<Rightarrow> Some (Inl p)
           | Some (Inr q') \<Rightarrow> Some (Inr (q', None))))"

section \<open>Drivers: sequences of calls made by one goroutine\<close>





text \<open>The comparator of the tests and of the README: numeric, ascending.\<close>

definition ascending :: "int \<Rightarrow> int \<Rightarrow> int" where
  "ascending a b = (if a < b then - 1 else if a > b then 1 else 0)"

text \<open>
  A stand-in for \<open>json.Unmarshal\<close> into \<open>[]int\<close>, used only to run the decoding methods on
  concrete inputs: it knows two well-formed documents and rejects everything else.
\<close>

definition unmarshal_ints :: "string \<Rightarrow> string + int list" where
  "unmarshal_ints data =
     (if data = ''[1,2]'' then Inr [1, 2]
      else if data = ''[3,1,2]'' then Inr [3, 1, 2]
      else Inl ''unexpected end of JSON input'')"


text \<open>The size field agrees with the slice.\<close>

definition BQ_inv :: "'a BlockingQueue \<Rightarrow> bool" where
  "BQ_inv q = (bq_size q = int (length (bq_items q)))"

definition PQ_inv :: "'a PriorityQueue \<Rightarrow> bool" where
  "PQ_inv q = (pq_size q = int (length (pq_items q)))"

section \<open>Orderings and the heap property\<close>

text \<open>
  \<open>sorts_le cmp a b\<close>: the comparator does not put \<open>b\<close> before \<open>a\<close>. A comparator is valid
  when "sorts before" (\<open>cmp a b < 0\<close>) is asymmetric and \<open>sorts_le\<close> is transitive, which
  makes \<open>sorts_le\<close> a total preorder.
\<close>

definition sorts_le :: "('a \<Rightarrow> 'a \<Rightarrow> int) \<Rightarrow> 'a \<Rightarrow> 'a \<Rightarrow> bool" where
  "sorts_le cmp a b = (\<not> cmp b a < 0)"

definition valid_comparator :: "('a \<Rightarrow> 'a \<Rightarrow> int) \<Rightarrow> bool" where
  "valid_comparator cmp =
     ((\<forall>a b. cmp a b < 0 \<longrightarrow> \<not> cmp b a < 0)
      \<and> (\<forall>a b c. \<not> cmp b a < 0 \<longrightarrow> \<not> cmp c b < 0 \<longrightarrow> \<not> cmp c a < 0))"

text \<open>
  The heap property of the slice: no element sorts before its parent, the parent of
  index \<open>i\<close> being index \<open>(i - 1) div 2\<close>. The two weaker properties hold while an element
  travels: up from index \<open>k\<close> (every pair is in order except \<open>k\<close> and its parent, and the
  children of \<open>k\<close> are in order with the parent of \<open>k\<close>) and down from index \<open>k\<close> (every
  pair is in order except \<open>k\<close> and its children, which are in order with the parent of \<open>k\<close>).
\<close>

definition is_heap :: "('a \<Rightarrow> 'a \<Rightarrow> int) \<Rightarrow> 'a list \<Rightarrow> bool" where
  "is_heap cmp xs = (\<forall>i \<in> {1..<length xs}. sorts_le cmp (xs ! ((i - 1) div 2)) (xs ! i))"

definition heap_but_up :: "('a \<Rightarrow> 'a \<Rightarrow> int) \<Rightarrow> 'a list \<Rightarrow> nat \<Rightarrow> bool" where
  "heap_but_up cmp xs k =
     (\<forall>i \<in> {1..<length xs}.
        (i \<noteq> k \<longrightarrow> sorts_le cmp (xs ! ((i - 1) div 2)) (xs ! i))
        \<and> ((i - 1) div 2 = k \<and> 0 < k \<longrightarrow> sorts_le cmp (xs ! ((k - 1) div 2)) (xs ! i)))"

definition heap_but_down :: "('a \<Rightarrow> 'a \<Rightarrow> int) \<Rightarrow> 'a list \<Rightarrow> nat \<Rightarrow> bool" where
  "heap_but_down cmp xs k =
     (\<forall>i \<in> {1..<length xs}.
        ((i - 1) div 2 \<noteq> k \<longrightarrow> sorts_le cmp (xs ! ((i - 1) div 2)) (xs ! i))
        \<and> ((i - 1) div 2 = k \<and> 0 < k \<longrightarrow> sorts_le cmp (xs ! ((k - 1) div 2)) (xs ! i)))"

text \<open>A well-formed priority queue: the size is right and the slice is a heap.\<close>

definition PQ_ok :: "('a \<Rightarrow> 'a \<Rightarrow> int) \<Rightarrow> 'a PriorityQueue \<Rightarrow> bool" where
  "PQ_ok cmp q = (PQ_inv q \<and> pq_comparator q = cmp \<and> is_heap cmp (pq_items q))"

text \<open>\<open>Dequeue\<close> called \<open>n\<close> times on a \<open>PriorityQueue\<close>.\<close>

fun PQ_dequeue_n ::
  "'a \<Rightarrow> 'a PriorityQueue \<Rightarrow> nat \<Rightarrow> panic + ('a PriorityQueue \<times> 'a list)" where
  "PQ_dequeue_n zero q 0 = Inr (q, [])"
| "PQ_dequeue_n zero q (Suc n) =
     (case PQ_Dequeue zero q of
        Inl p \<Rightarrow> Inl p
      | Inr (q', v, ok) \<Rightarrow>
          (case PQ_dequeue_n zero q' n of
             Inl p \<Rightarrow> Inl p
           | Inr (q'', vs) \<Rightarrow> Inr (q'', v # vs)))"

text \<open>
  A new queue built from the values (one \<open>Enqueue\<close> each), then one \<open>Dequeue\<close> for each
  of them: the list of the dequeued values.
\<close>

definition PQ_enqueue_dequeue_all ::
  "('a \<Rightarrow> 'a \<Rightarrow> int) \<Rightarrow> 'a \<Rightarrow> 'a list \<Rightarrow> (panic + 'a list) option" where
  "PQ_enqueue_dequeue_all comparator zero vals =
     (case NewPriorityQueue comparator vals of
        None \<Rightarrow> None
      | Some (Inl p) \<Rightarrow> Some (Inl p)
      | Some (Inr q) \<Rightarrow>
          Some (case PQ_dequeue_n zero q (length vals) of
                  Inl p \<Rightarrow> Inl p
                | Inr (q', vs) \<Rightarrow> Inr vs))"

section \<open>Basic facts\<close>

lemma keep_items_filter:
  "keep_items callback xs kept = kept @ filter (\<lambda>x. \<not> callback x) xs"
  by (induction xs arbitrary: kept) simp_all


section \<open>TryEnqueue on the bounded FIFO queues\<close>

text \<open>
  Claim C1. For \<open>BlockingQueue\<close> and \<open>LinkedBlockingQueue\<close> of any capacity (zero included),
  \<open>TryEnqueue\<close> answers false exactly when the size equals the capacity, and then the queue
  is the one it was; otherwise the value is appended at the tail, the size grows by one
  and the answer is true.
\<close>

theorem TryEnqueue_full_iff:
  assumes "BQ_TryEnqueue q v = (q', ok)" and "LBQ_TryEnqueue l v = (l', ok')"
  shows "(\<not> ok \<longleftrightarrow> BQ_Count q = bq_cap q)
       \<and> (\<not> ok \<longrightarrow> q' = q)
       \<and> (ok \<longrightarrow> BQ_ToArray q' = BQ_ToArray q @ [v] \<and> BQ_Count q' = BQ_Count q + 1
                 \<and> bq_cap q' = bq_cap q)
       \<and> (\<not> ok' \<longleftrightarrow> LBQ_Count l = lbq_cap l)
       \<and> (\<not> ok' \<longrightarrow> l' = l)
       \<and> (ok' \<longrightarrow> LBQ_ToArray l' = LBQ_ToArray l @ [v] \<and> LBQ_Count l' = LBQ_Count l + 1
                 \<and> lbq_cap l' = lbq_cap l)"
proof -
  have bq: "(\<not> ok \<longleftrightarrow> BQ_Count q = bq_cap q) \<and> (\<not> ok \<longrightarrow> q' = q)
       \<and> (ok \<longrightarrow> BQ_ToArray q' = BQ_ToArray q @ [v] \<and> BQ_Count q' = BQ_Count q + 1
                 \<and> bq_cap q' = bq_cap q)"
    using assms(1)
    by (auto simp: BQ_TryEnqueue_def BQ_Count_def BQ_ToArray_def split: if_splits)
  have lbq: "(\<not> ok' \<longleftrightarrow> LBQ_Count l = lbq_cap l) \<and> (\<not> ok' \<longrightarrow> l' = l)
       \<and> (ok' \<longrightarrow> LBQ_ToArray l' = LBQ_ToArray l @ [v] \<and> LBQ_Count l' = LBQ_Count l + 1
                 \<and> lbq_cap l' = lbq_cap l)"
    using assms(2)
    by (auto simp: LBQ_TryEnqueue_def LBQ_Count_def LBQ_ToArray_def LL_Count_def
        LL_Push_def LL_ToArray_def split: if_splits)
  from bq lbq show ?thesis by blast
qed

text \<open>
  The theorem at capacity zero (always full) and at a queue with room: the first call is
  refused and changes nothing, the second appends 7.
\<close>

theorem TryEnqueue_full_iff_witness:
  "BQ_TryEnqueue (NewBlockingQueue 0) (7::int) = (NewBlockingQueue 0, False)
   \<and> LBQ_TryEnqueue \<lparr>lbq_items = [1], lbq_cap = 2\<rparr> (7::int)
       = (\<lparr>lbq_items = [1, 7], lbq_cap = 2\<rparr>, True)
   \<and> BQ_Count (NewBlockingQueue 0 :: int BlockingQueue) = bq_cap (NewBlockingQueue 0 :: int BlockingQueue)
   \<and> LBQ_ToArray \<lparr>lbq_items = [1, 7::int], lbq_cap = 2\<rparr>
       = LBQ_ToArray \<lparr>lbq_items = [1], lbq_cap = 2\<rparr> @ [7]"
proof -
  have a: "BQ_TryEnqueue (NewBlockingQueue 0) (7::int) = (NewBlockingQueue 0, False)"
    by (simp add: BQ_TryEnqueue_def NewBlockingQueue_def)
  have b: "LBQ_TryEnqueue \<lparr>lbq_items = [1], lbq_cap = 2\<rparr> (7::int)
       = (\<lparr>lbq_items = [1, 7], lbq_cap = 2\<rparr>, True)"
    by (simp add: LBQ_TryEnqueue_def LL_Count_def LL_Push_def)
  from TryEnqueue_full_iff [OF a b] a b show ?thesis by simp
qed

section \<open>FIFO order\<close>









section \<open>Remove and RemoveWhere\<close>




section \<open>The binary heap\<close>

lemma parent_int: "(int k - 1) sdiv 2 = int ((k - 1) div 2)"
  by (cases k) (simp_all add: signed_divide_int_def sgn_if zdiv_int)

lemma sorts_le_refl: "valid_comparator cmp \<Longrightarrow> sorts_le cmp a a"
  unfolding valid_comparator_def sorts_le_def by blast

lemma sorts_le_trans:
  "valid_comparator cmp \<Longrightarrow> sorts_le cmp a b \<Longrightarrow> sorts_le cmp b c \<Longrightarrow> sorts_le cmp a c"
  unfolding valid_comparator_def sorts_le_def by blast

lemma less_sorts_le: "valid_comparator cmp \<Longrightarrow> cmp a b < 0 \<Longrightarrow> sorts_le cmp a b"
  unfolding valid_comparator_def sorts_le_def by blast

lemma not_less_sorts_le: "\<not> cmp a b < 0 \<Longrightarrow> sorts_le cmp b a"
  unfolding sorts_le_def by blast

lemma PQ_sift_up_nat:
  assumes "k < length (pq_items q)"
  shows "PQ_sift_up q (int k) =
     (if pq_comparator q (pq_items q ! k) (pq_items q ! ((k - 1) div 2)) < 0
      then PQ_sift_up
             (q\<lparr>pq_items := (pq_items q)[k := pq_items q ! ((k - 1) div 2),
                                          (k - 1) div 2 := pq_items q ! k]\<rparr>)
             (int ((k - 1) div 2))
      else Some (Inr q))"
proof -
  have p: "(k - 1) div 2 < length (pq_items q)" using assms by arith
  show ?thesis
    using assms p
    by (subst PQ_sift_up.simps) (simp add: parent_int less_pq_def swap_pq_def at_index_def)
qed

lemma up_done:
  assumes "valid_comparator cmp" "heap_but_up cmp xs k" "k < length xs"
    "\<not> cmp (xs ! k) (xs ! ((k - 1) div 2)) < 0"
  shows "is_heap cmp xs"
  unfolding is_heap_def
proof
  fix i assume i: "i \<in> {1..<length xs}"
  show "sorts_le cmp (xs ! ((i - 1) div 2)) (xs ! i)"
  proof (cases "i = k")
    case True
    with assms(4) show ?thesis by (simp add: sorts_le_def)
  next
    case False
    with assms(2) i show ?thesis unfolding heap_but_up_def by blast
  qed
qed

lemma up_swap:
  assumes v: "valid_comparator cmp" and h: "heap_but_up cmp xs k" and k: "k < length xs"
    and c: "cmp (xs ! k) (xs ! ((k - 1) div 2)) < 0"
  shows "heap_but_up cmp (xs[k := xs ! ((k - 1) div 2), (k - 1) div 2 := xs ! k]) ((k - 1) div 2)
         \<and> (k - 1) div 2 < k"
proof -
  define p where "p = (k - 1) div 2"
  define a where "a = xs ! k"
  define b where "b = xs ! p"
  define ys where "ys = xs[k := b, p := a]"
  have k0: "0 < k"
  proof (rule ccontr)
    assume "\<not> 0 < k"
    then have "k = 0" by simp
    with c have "cmp (xs ! 0) (xs ! 0) < 0" by simp
    with v show False unfolding valid_comparator_def by blast
  qed
  then have pk: "p < k" unfolding p_def by arith
  have ab: "sorts_le cmp a b" using less_sorts_le [OF v] c unfolding a_def b_def p_def by blast
  have H1: "\<And>i. 0 < i \<Longrightarrow> i < length xs \<Longrightarrow> i \<noteq> k \<Longrightarrow> sorts_le cmp (xs ! ((i - 1) div 2)) (xs ! i)"
    using h unfolding heap_but_up_def by auto
  have H2: "\<And>i. 0 < i \<Longrightarrow> i < length xs \<Longrightarrow> (i - 1) div 2 = k \<Longrightarrow> sorts_le cmp b (xs ! i)"
    using h k0 unfolding heap_but_up_def b_def p_def by auto
  have nth: "\<And>i. i < length xs \<Longrightarrow> ys ! i = (if i = p then a else if i = k then b else xs ! i)"
    unfolding ys_def using k pk by (simp add: nth_list_update)
  have len: "length ys = length xs" unfolding ys_def by simp
  have "heap_but_up cmp ys p"
    unfolding heap_but_up_def
  proof (intro ballI conjI impI)
    fix i assume i: "i \<in> {1..<length ys}" and ip: "i \<noteq> p"
    then have i0: "0 < i" and il: "i < length xs" using len by auto
    have pl: "(i - 1) div 2 < length xs" using il by arith
    show "sorts_le cmp (ys ! ((i - 1) div 2)) (ys ! i)"
    proof (cases "i = k")
      case True
      then show ?thesis using nth [OF il] nth [OF pl] ab pk p_def by auto
    next
      case ik: False
      have yi: "ys ! i = xs ! i" using nth [OF il] ip ik by simp
      consider "(i - 1) div 2 = p" | "(i - 1) div 2 = k" | "(i - 1) div 2 \<noteq> p" "(i - 1) div 2 \<noteq> k"
        by blast
      then show ?thesis
      proof cases
        case 1
        have "sorts_le cmp b (xs ! i)" using H1 [OF i0 il ik] 1 unfolding b_def by simp
        with ab have "sorts_le cmp a (xs ! i)" using sorts_le_trans [OF v] by blast
        then show ?thesis using nth [OF pl] 1 yi by simp
      next
        case 2
        have "sorts_le cmp b (xs ! i)" using H2 [OF i0 il 2] .
        then show ?thesis using nth [OF pl] 2 yi pk by simp
      next
        case 3
        then show ?thesis using nth [OF pl] yi H1 [OF i0 il ik] by simp
      qed
    qed
  next
    fix i assume i: "i \<in> {1..<length ys}" and ip: "(i - 1) div 2 = p \<and> 0 < p"
    then have i0: "0 < i" and il: "i < length xs" using len by auto
    have p0: "0 < p" and par: "(i - 1) div 2 = p" using ip by auto
    have ppl: "(p - 1) div 2 < length xs" using pk k by arith
    have pp: "(p - 1) div 2 < p" using p0 by arith
    have g: "ys ! ((p - 1) div 2) = xs ! ((p - 1) div 2)" using nth [OF ppl] pp pk by simp
    have gb: "sorts_le cmp (xs ! ((p - 1) div 2)) b"
      using H1 [of p] p0 pk k unfolding b_def by simp
    have inp: "i \<noteq> p" using par i0 by arith
    show "sorts_le cmp (ys ! ((p - 1) div 2)) (ys ! i)"
    proof (cases "i = k")
      case True
      then show ?thesis using nth [OF il] g gb inp by simp
    next
      case False
      have "sorts_le cmp b (xs ! i)" using H1 [OF i0 il False] par unfolding b_def by simp
      with gb have "sorts_le cmp (xs ! ((p - 1) div 2)) (xs ! i)"
        using sorts_le_trans [OF v] by blast
      then show ?thesis using nth [OF il] g inp False by simp
    qed
  qed
  then show ?thesis using pk unfolding ys_def a_def b_def p_def by simp
qed

lemma sift_up_heap:
  assumes v: "valid_comparator cmp"
  shows "k < length (pq_items q) \<Longrightarrow> pq_comparator q = cmp \<Longrightarrow> heap_but_up cmp (pq_items q) k
    \<Longrightarrow> \<exists>q'. PQ_sift_up q (int k) = Some (Inr q') \<and> is_heap cmp (pq_items q')
          \<and> mset (pq_items q') = mset (pq_items q) \<and> pq_size q' = pq_size q
          \<and> pq_comparator q' = cmp"
proof (induction k arbitrary: q rule: less_induct)
  case (less k)
  let ?xs = "pq_items q"
  let ?p = "(k - 1) div 2"
  show ?case
  proof (cases "cmp (?xs ! k) (?xs ! ?p) < 0")
    case False
    then have "PQ_sift_up q (int k) = Some (Inr q)"
      using PQ_sift_up_nat [OF less.prems(1)] less.prems(2) by simp
    moreover have "is_heap cmp ?xs" using up_done [OF v less.prems(3) less.prems(1) False] .
    ultimately show ?thesis using less.prems(2) by simp
  next
    case True
    let ?q1 = "q\<lparr>pq_items := ?xs[k := ?xs ! ?p, ?p := ?xs ! k]\<rparr>"
    have step: "PQ_sift_up q (int k) = PQ_sift_up ?q1 (int ?p)"
      using PQ_sift_up_nat [OF less.prems(1)] less.prems(2) True by simp
    from up_swap [OF v less.prems(3) less.prems(1) True]
    have hb: "heap_but_up cmp (pq_items ?q1) ?p" and pk: "?p < k" by simp_all
    have pl: "?p < length (pq_items ?q1)" using pk less.prems(1) by simp
    have "pq_comparator ?q1 = cmp" using less.prems(2) by simp
    from less.IH [OF pk pl this hb] obtain q' where
      r: "PQ_sift_up ?q1 (int ?p) = Some (Inr q')" "is_heap cmp (pq_items q')"
        "mset (pq_items q') = mset (pq_items ?q1)" "pq_size q' = pq_size ?q1"
        "pq_comparator q' = cmp"
      by blast
    have "mset (pq_items ?q1) = mset ?xs"
      using mset_swap [of ?p ?xs k] pk less.prems(1) by simp
    with r step show ?thesis by simp
  qed
qed


lemma PQ_sift_down_nat:
  assumes "k < length (pq_items q)"
  shows "PQ_sift_down q (int k) (int (length (pq_items q)) - 1) =
     (if length (pq_items q) \<le> 2 * k + 1 then Inr q
      else
        (let s = (if 2 * k + 2 < length (pq_items q)
                     \<and> pq_comparator q (pq_items q ! (2 * k + 2)) (pq_items q ! (2 * k + 1)) < 0
                  then 2 * k + 2 else 2 * k + 1)
         in if \<not> pq_comparator q (pq_items q ! s) (pq_items q ! k) < 0 then Inr q
            else PQ_sift_down
                   (q\<lparr>pq_items := (pq_items q)[s := pq_items q ! k, k := pq_items q ! s]\<rparr>)
                   (int s) (int (length (pq_items q)) - 1)))"
proof (cases "length (pq_items q) \<le> 2 * k + 1")
  case True
  then show ?thesis by (subst PQ_sift_down.simps) (simp add: Let_def)
next
  case False
  then have l: "2 * k + 1 < length (pq_items q)" by simp
  have e1: "int k * 2 + 1 = int (2 * k + 1)" "int k * 2 + 1 + 1 = int (2 * k + 2)" by simp_all
  show ?thesis
  proof (cases "2 * k + 2 < length (pq_items q)")
    case True
    show ?thesis
      apply (subst PQ_sift_down.simps)
      using l True assms
      apply (simp add: Let_def less_pq_def swap_pq_def at_index_def e1 del: of_nat_add of_nat_mult)
      apply (simp add: nat_add_distrib nat_mult_distrib)
      done
  next
    case False
    show ?thesis
      apply (subst PQ_sift_down.simps)
      using l False assms
      apply (simp add: Let_def less_pq_def swap_pq_def at_index_def e1 del: of_nat_add of_nat_mult)
      apply (simp add: nat_add_distrib nat_mult_distrib)
      done
  qed
qed


lemma smaller_child:
  assumes v: "valid_comparator cmp" and l: "2 * k + 1 < length xs"
    and s: "s = (if 2 * k + 2 < length xs \<and> cmp (xs ! (2 * k + 2)) (xs ! (2 * k + 1)) < 0
                 then 2 * k + 2 else 2 * k + 1)"
  shows "s < length xs" and "(s - 1) div 2 = k" and "k < s"
    and "\<And>i. 0 < i \<Longrightarrow> i < length xs \<Longrightarrow> (i - 1) div 2 = k \<Longrightarrow> sorts_le cmp (xs ! s) (xs ! i)"
proof -
  show "s < length xs" using l s by (simp split: if_splits)
  show "(s - 1) div 2 = k" using s by (simp split: if_splits)
  show "k < s" using s by (simp split: if_splits)
  fix i assume i: "0 < i" "i < length xs" "(i - 1) div 2 = k"
  then have cases: "i = 2 * k + 1 \<or> i = 2 * k + 2" by arith
  show "sorts_le cmp (xs ! s) (xs ! i)"
  proof (cases "2 * k + 2 < length xs \<and> cmp (xs ! (2 * k + 2)) (xs ! (2 * k + 1)) < 0")
    case True
    then have s2: "s = 2 * k + 2" using s by simp
    from True have "sorts_le cmp (xs ! (2 * k + 2)) (xs ! (2 * k + 1))"
      using less_sorts_le [OF v] by blast
    then show ?thesis using cases s2 sorts_le_refl [OF v] by auto
  next
    case False
    then have s1: "s = 2 * k + 1" using s by simp
    show ?thesis
    proof (cases "i = 2 * k + 1")
      case True
      then show ?thesis using s1 sorts_le_refl [OF v] by simp
    next
      case F: False
      then have i2: "i = 2 * k + 2" using cases by simp
      then have "\<not> cmp (xs ! (2 * k + 2)) (xs ! (2 * k + 1)) < 0" using False i(2) by simp
      then show ?thesis using s1 i2 by (simp add: sorts_le_def)
    qed
  qed
qed

lemma down_leaf:
  assumes "heap_but_down cmp xs k" "length xs \<le> 2 * k + 1"
  shows "is_heap cmp xs"
  unfolding is_heap_def
proof
  fix i assume i: "i \<in> {1..<length xs}"
  then have "(i - 1) div 2 \<noteq> k" using assms(2) by auto
  with assms(1) i show "sorts_le cmp (xs ! ((i - 1) div 2)) (xs ! i)"
    unfolding heap_but_down_def by blast
qed

lemma down_done:
  assumes v: "valid_comparator cmp" and h: "heap_but_down cmp xs k"
    and l: "2 * k + 1 < length xs"
    and s: "s = (if 2 * k + 2 < length xs \<and> cmp (xs ! (2 * k + 2)) (xs ! (2 * k + 1)) < 0
                 then 2 * k + 2 else 2 * k + 1)"
    and c: "\<not> cmp (xs ! s) (xs ! k) < 0"
  shows "is_heap cmp xs"
  unfolding is_heap_def
proof
  fix i assume i: "i \<in> {1..<length xs}"
  then have i0: "0 < i" and il: "i < length xs" by auto
  show "sorts_le cmp (xs ! ((i - 1) div 2)) (xs ! i)"
  proof (cases "(i - 1) div 2 = k")
    case True
    have "sorts_le cmp (xs ! k) (xs ! s)" using c by (simp add: sorts_le_def)
    moreover have "sorts_le cmp (xs ! s) (xs ! i)" using smaller_child(4) [OF v l s i0 il True] .
    ultimately show ?thesis using sorts_le_trans [OF v] True by blast
  next
    case False
    with h i show ?thesis unfolding heap_but_down_def by blast
  qed
qed

lemma down_swap:
  assumes v: "valid_comparator cmp" and h: "heap_but_down cmp xs k"
    and l: "2 * k + 1 < length xs"
    and s: "s = (if 2 * k + 2 < length xs \<and> cmp (xs ! (2 * k + 2)) (xs ! (2 * k + 1)) < 0
                 then 2 * k + 2 else 2 * k + 1)"
    and c: "cmp (xs ! s) (xs ! k) < 0"
  shows "heap_but_down cmp (xs[s := xs ! k, k := xs ! s]) s"
proof -
  define a where "a = xs ! k"
  define b where "b = xs ! s"
  define ys where "ys = xs[s := a, k := b]"
  note sc = smaller_child [OF v l s]
  have sl: "s < length xs" and ps: "(s - 1) div 2 = k" and ks: "k < s" using sc by simp_all
  have kl: "k < length xs" using ks sl by simp
  have ba: "sorts_le cmp b a" using less_sorts_le [OF v] c unfolding a_def b_def by blast
  have H1: "\<And>i. 0 < i \<Longrightarrow> i < length xs \<Longrightarrow> (i - 1) div 2 \<noteq> k
              \<Longrightarrow> sorts_le cmp (xs ! ((i - 1) div 2)) (xs ! i)"
    using h unfolding heap_but_down_def by auto
  have H2: "\<And>i. 0 < i \<Longrightarrow> i < length xs \<Longrightarrow> (i - 1) div 2 = k \<Longrightarrow> 0 < k
              \<Longrightarrow> sorts_le cmp (xs ! ((k - 1) div 2)) (xs ! i)"
    using h unfolding heap_but_down_def by auto
  have H3: "\<And>i. 0 < i \<Longrightarrow> i < length xs \<Longrightarrow> (i - 1) div 2 = k \<Longrightarrow> sorts_le cmp b (xs ! i)"
    using sc(4) unfolding b_def by blast
  have nth: "\<And>i. i < length xs \<Longrightarrow> ys ! i = (if i = k then b else if i = s then a else xs ! i)"
    unfolding ys_def using sl kl ks by (simp add: nth_list_update)
  have len: "length ys = length xs" unfolding ys_def by simp
  have "heap_but_down cmp ys s"
    unfolding heap_but_down_def
  proof (intro ballI conjI impI)
    fix i assume i: "i \<in> {1..<length ys}" and ip: "(i - 1) div 2 \<noteq> s"
    then have i0: "0 < i" and il: "i < length xs" using len by auto
    have pl: "(i - 1) div 2 < length xs" using il by arith
    have pi: "(i - 1) div 2 < i" using i0 by arith
    show "sorts_le cmp (ys ! ((i - 1) div 2)) (ys ! i)"
    proof (cases "(i - 1) div 2 = k")
      case True
      have ik: "i \<noteq> k" using True pi by simp
      show ?thesis
      proof (cases "i = s")
        case True
        then show ?thesis using nth [OF il] nth [OF pl] ps ba ik by simp
      next
        case False
        then show ?thesis using nth [OF il] nth [OF pl] True ik H3 [OF i0 il True] by simp
      qed
    next
      case False
      have ins: "i \<noteq> s" using False ps by auto
      show ?thesis
      proof (cases "i = k")
        case True
        then have k0: "0 < k" using i0 by simp
        have "sorts_le cmp (xs ! ((k - 1) div 2)) (xs ! s)"
          using H2 [of s] sl ps ks k0 by simp
        moreover have "(k - 1) div 2 \<noteq> k" "(k - 1) div 2 \<noteq> s" using k0 ks by arith+
        ultimately show ?thesis using nth [OF il] nth [OF pl] True unfolding b_def by simp
      next
        case ik: False
        then show ?thesis using nth [OF il] nth [OF pl] False ins ip H1 [OF i0 il False] by simp
      qed
    qed
  next
    fix i assume i: "i \<in> {1..<length ys}" and ip: "(i - 1) div 2 = s \<and> 0 < s"
    then have i0: "0 < i" and il: "i < length xs" using len by auto
    have par: "(i - 1) div 2 = s" using ip by simp
    have "s < i" using par i0 by arith
    then have yi: "ys ! i = xs ! i" using nth [OF il] ks by simp
    have "(i - 1) div 2 \<noteq> k" using par ks by simp
    from H1 [OF i0 il this] have "sorts_le cmp b (xs ! i)" using par unfolding b_def by simp
    then show "sorts_le cmp (ys ! ((s - 1) div 2)) (ys ! i)"
      using yi nth [OF kl] ps by simp
  qed
  then show ?thesis unfolding ys_def a_def b_def by simp
qed

lemma sift_down_heap:
  assumes v: "valid_comparator cmp"
  shows "k < length (pq_items q) \<Longrightarrow> pq_comparator q = cmp \<Longrightarrow> heap_but_down cmp (pq_items q) k
    \<Longrightarrow> \<exists>q'. PQ_sift_down q (int k) (int (length (pq_items q)) - 1) = Inr q'
          \<and> is_heap cmp (pq_items q')
          \<and> mset (pq_items q') = mset (pq_items q) \<and> pq_size q' = pq_size q
          \<and> pq_comparator q' = cmp"
proof (induction "length (pq_items q) - k" arbitrary: q k rule: less_induct)
  case less
  let ?xs = "pq_items q"
  note nat = PQ_sift_down_nat [OF less.prems(1)]
  show ?case
  proof (cases "length ?xs \<le> 2 * k + 1")
    case True
    then have "PQ_sift_down q (int k) (int (length ?xs) - 1) = Inr q" using nat by simp
    moreover have "is_heap cmp ?xs" using down_leaf [OF less.prems(3) True] .
    ultimately show ?thesis using less.prems(2) by simp
  next
    case False
    then have l: "2 * k + 1 < length ?xs" by simp
    define s where "s = (if 2 * k + 2 < length ?xs \<and> cmp (?xs ! (2 * k + 2)) (?xs ! (2 * k + 1)) < 0
                 then 2 * k + 2 else 2 * k + 1)"
    note sc = smaller_child [OF v l s_def]
    show ?thesis
    proof (cases "cmp (?xs ! s) (?xs ! k) < 0")
      case F: False
      then have "PQ_sift_down q (int k) (int (length ?xs) - 1) = Inr q"
        using nat False less.prems(2) unfolding s_def by (simp add: Let_def)
      moreover have "is_heap cmp ?xs" using down_done [OF v less.prems(3) l s_def F] .
      ultimately show ?thesis using less.prems(2) by simp
    next
      case True
      let ?q1 = "q\<lparr>pq_items := ?xs[s := ?xs ! k, k := ?xs ! s]\<rparr>"
      have step: "PQ_sift_down q (int k) (int (length ?xs) - 1)
                  = PQ_sift_down ?q1 (int s) (int (length (pq_items ?q1)) - 1)"
        using nat False True less.prems(2) unfolding s_def by (simp add: Let_def)
      have hb: "heap_but_down cmp (pq_items ?q1) s"
        using down_swap [OF v less.prems(3) l s_def True] by simp
      have m: "length (pq_items ?q1) - s < length ?xs - k" using sc(1) sc(3) by simp
      have sl: "s < length (pq_items ?q1)" using sc(1) by simp
      have "pq_comparator ?q1 = cmp" using less.prems(2) by simp
      from less.hyps [OF m sl this hb] obtain q' where
        r: "PQ_sift_down ?q1 (int s) (int (length (pq_items ?q1)) - 1) = Inr q'"
          "is_heap cmp (pq_items q')"
          "mset (pq_items q') = mset (pq_items ?q1)" "pq_size q' = pq_size ?q1"
          "pq_comparator q' = cmp"
        by blast
      have "mset (pq_items ?q1) = mset ?xs"
        using mset_swap [of k ?xs s] sc(1) less.prems(1) by simp
      with r step show ?thesis by simp
    qed
  qed
qed


lemma sift_down_returns:
  "k < length (pq_items q) \<Longrightarrow>
     \<exists>q'. PQ_sift_down q (int k) (int (length (pq_items q)) - 1) = Inr q'
          \<and> mset (pq_items q') = mset (pq_items q) \<and> pq_size q' = pq_size q
          \<and> pq_comparator q' = pq_comparator q"
proof (induction "length (pq_items q) - k" arbitrary: q k rule: less_induct)
  case less
  let ?xs = "pq_items q"
  note nat = PQ_sift_down_nat [OF less.prems(1)]
  show ?case
  proof (cases "length ?xs \<le> 2 * k + 1")
    case True
    then show ?thesis using nat by simp
  next
    case False
    define s where "s = (if 2 * k + 2 < length ?xs
                      \<and> pq_comparator q (?xs ! (2 * k + 2)) (?xs ! (2 * k + 1)) < 0
                 then 2 * k + 2 else 2 * k + 1)"
    have sl: "s < length ?xs" and ks: "k < s" using False unfolding s_def by (simp_all split: if_splits)
    show ?thesis
    proof (cases "pq_comparator q (?xs ! s) (?xs ! k) < 0")
      case F: False
      then show ?thesis using nat False unfolding s_def by (simp add: Let_def)
    next
      case True
      let ?q1 = "q\<lparr>pq_items := ?xs[s := ?xs ! k, k := ?xs ! s]\<rparr>"
      have step: "PQ_sift_down q (int k) (int (length ?xs) - 1)
                  = PQ_sift_down ?q1 (int s) (int (length (pq_items ?q1)) - 1)"
        using nat False True unfolding s_def by (simp add: Let_def)
      have m: "length (pq_items ?q1) - s < length ?xs - k" using sl ks by simp
      have sl1: "s < length (pq_items ?q1)" using sl by simp
      from less.hyps [OF m sl1] obtain q' where
        r: "PQ_sift_down ?q1 (int s) (int (length (pq_items ?q1)) - 1) = Inr q'"
          "mset (pq_items q') = mset (pq_items ?q1)" "pq_size q' = pq_size ?q1"
          "pq_comparator q' = pq_comparator ?q1"
        by blast
      have "mset (pq_items ?q1) = mset ?xs"
        using mset_swap [of k ?xs s] sl less.prems(1) by simp
      with r step show ?thesis by simp
    qed
  qed
qed

lemma sift_down_empty:
  "pq_items q = [] \<Longrightarrow> PQ_sift_down q 0 (int (length (pq_items q)) - 1) = Inr q"
  by (subst PQ_sift_down.simps) simp

lemma sift_up_partial:
  assumes "PQ_sift_up q index = Some r"
  shows "0 \<le> index \<and> index < int (length (pq_items q)) \<longrightarrow>
     (\<exists>q'. r = Inr q' \<and> mset (pq_items q') = mset (pq_items q) \<and> pq_size q' = pq_size q
          \<and> pq_comparator q' = pq_comparator q)"
proof (rule PQ_sift_up.raw_induct [where P = "\<lambda>q index r.
     0 \<le> index \<and> index < int (length (pq_items q)) \<longrightarrow>
     (\<exists>q'. r = Inr q' \<and> mset (pq_items q') = mset (pq_items q) \<and> pq_size q' = pq_size q
          \<and> pq_comparator q' = pq_comparator q)", OF _ assms])
  fix sift :: "'a PriorityQueue \<Rightarrow> int \<Rightarrow> (panic + 'a PriorityQueue) option"
    and q index r
  assume IH: "\<And>q index r. sift q index = Some r \<Longrightarrow>
     0 \<le> index \<and> index < int (length (pq_items q)) \<longrightarrow>
     (\<exists>q'. r = Inr q' \<and> mset (pq_items q') = mset (pq_items q) \<and> pq_size q' = pq_size q
          \<and> pq_comparator q' = pq_comparator q)"
    and eq: "(case less_pq q index ((index - 1) sdiv 2) of
        Inl p \<Rightarrow> Some (Inl p)
      | Inr b \<Rightarrow>
          if b then
            (case swap_pq q index ((index - 1) sdiv 2) of
               Inl p \<Rightarrow> Some (Inl p)
             | Inr q' \<Rightarrow> sift q' ((index - 1) sdiv 2))
          else Some (Inr q)) = Some r"
  show "0 \<le> index \<and> index < int (length (pq_items q)) \<longrightarrow>
     (\<exists>q'. r = Inr q' \<and> mset (pq_items q') = mset (pq_items q) \<and> pq_size q' = pq_size q
          \<and> pq_comparator q' = pq_comparator q)"
  proof
    assume rng: "0 \<le> index \<and> index < int (length (pq_items q))"
    define k where "k = nat index"
    have ik: "index = int k" and kl: "k < length (pq_items q)"
      using rng unfolding k_def by auto
    let ?xs = "pq_items q"
    let ?p = "(k - 1) div 2"
    have pl: "?p < length ?xs" using kl by arith
    show "\<exists>q'. r = Inr q' \<and> mset (pq_items q') = mset (pq_items q) \<and> pq_size q' = pq_size q
          \<and> pq_comparator q' = pq_comparator q"
    proof (cases "pq_comparator q (?xs ! k) (?xs ! ?p) < 0")
      case False
      then have "r = Inr q"
        using eq kl pl unfolding ik
        by (simp add: parent_int less_pq_def swap_pq_def at_index_def)
      then show ?thesis by simp
    next
      case True
      let ?q1 = "q\<lparr>pq_items := ?xs[k := ?xs ! ?p, ?p := ?xs ! k]\<rparr>"
      have rec: "sift ?q1 (int ?p) = Some r"
        using eq kl pl True unfolding ik
        by (simp add: parent_int less_pq_def swap_pq_def at_index_def)
      have "\<exists>q'. r = Inr q' \<and> mset (pq_items q') = mset (pq_items ?q1)
          \<and> pq_size q' = pq_size ?q1 \<and> pq_comparator q' = pq_comparator ?q1"
        using IH [OF rec] pl by simp
      moreover have "mset (pq_items ?q1) = mset ?xs"
        using mset_swap [of ?p ?xs k] pl kl by simp
      ultimately show ?thesis by simp
    qed
  qed
qed

lemma heap_root_min:
  assumes v: "valid_comparator cmp" and h: "is_heap cmp xs"
  shows "i < length xs \<Longrightarrow> sorts_le cmp (xs ! 0) (xs ! i)"
proof (induction i rule: less_induct)
  case (less i)
  show ?case
  proof (cases "i = 0")
    case True
    then show ?thesis using sorts_le_refl [OF v] by simp
  next
    case False
    then have p: "(i - 1) div 2 < i" by arith
    then have "(i - 1) div 2 < length xs" using less.prems by simp
    from less.IH [OF p this] have "sorts_le cmp (xs ! 0) (xs ! ((i - 1) div 2))" .
    moreover have "sorts_le cmp (xs ! ((i - 1) div 2)) (xs ! i)"
      using h False less.prems unfolding is_heap_def by auto
    ultimately show ?thesis using sorts_le_trans [OF v] by blast
  qed
qed

lemma append_heap_but_up:
  assumes "is_heap cmp xs"
  shows "heap_but_up cmp (xs @ [v]) (length xs)"
  unfolding heap_but_up_def
proof (intro ballI conjI impI)
  fix i assume i: "i \<in> {1..<length (xs @ [v])}" and n: "i \<noteq> length xs"
  then have il: "i < length xs" and i0: "0 < i" by auto
  then have "(i - 1) div 2 < length xs" by arith
  then show "sorts_le cmp ((xs @ [v]) ! ((i - 1) div 2)) ((xs @ [v]) ! i)"
    using assms il i0 unfolding is_heap_def by (simp add: nth_append)
next
  fix i assume i: "i \<in> {1..<length (xs @ [v])}"
    and n: "(i - 1) div 2 = length xs \<and> 0 < length xs"
  then have False by auto
  then show "sorts_le cmp ((xs @ [v]) ! ((length xs - 1) div 2)) ((xs @ [v]) ! i)" ..
qed

lemma PQ_Enqueue_ok:
  assumes v: "valid_comparator cmp" and ok: "PQ_ok cmp q"
  shows "\<exists>q'. PQ_Enqueue q x = Some (Inr (q', True)) \<and> PQ_ok cmp q'
           \<and> mset (pq_items q') = add_mset x (mset (pq_items q))"
proof -
  let ?q1 = "q\<lparr>pq_items := pq_items q @ [x], pq_size := pq_size q + 1\<rparr>"
  have sz: "pq_size q = int (length (pq_items q))" and c: "pq_comparator q = cmp"
    and h: "is_heap cmp (pq_items q)"
    using ok unfolding PQ_ok_def PQ_inv_def by simp_all
  have idx: "pq_size ?q1 - 1 = int (length (pq_items q))" using sz by simp
  have "\<exists>q'. PQ_sift_up ?q1 (int (length (pq_items q))) = Some (Inr q') \<and> is_heap cmp (pq_items q')
          \<and> mset (pq_items q') = mset (pq_items ?q1) \<and> pq_size q' = pq_size ?q1
          \<and> pq_comparator q' = cmp"
    using append_heap_but_up [OF h, of x] c by (intro sift_up_heap [OF v]) simp_all
  then obtain q' where r: "PQ_sift_up ?q1 (int (length (pq_items q))) = Some (Inr q')"
      "is_heap cmp (pq_items q')" "mset (pq_items q') = mset (pq_items ?q1)"
      "pq_size q' = pq_size ?q1" "pq_comparator q' = cmp"
    by blast
  have "length (pq_items q') = length (pq_items ?q1)" using r(3) by (rule mset_eq_length)
  then have "PQ_inv q'" using r(4) sz unfolding PQ_inv_def by simp
  moreover have "PQ_Enqueue q x = Some (Inr (q', True))"
    unfolding PQ_Enqueue_def Let_def idx using r(1) by simp
  ultimately show ?thesis using r unfolding PQ_ok_def by simp
qed


lemma mset_drop_root:
  assumes "xs \<noteq> []"
  shows "add_mset (xs ! 0)
           (mset (take (length xs - 1) (xs[0 := xs ! (length xs - 1), length xs - 1 := xs ! 0])))
         = mset xs"
proof -
  let ?n = "length xs"
  let ?zs = "xs[0 := xs ! (?n - 1), ?n - 1 := xs ! 0]"
  have n: "0 < ?n" using assms by simp
  have m: "mset ?zs = mset xs" using mset_swap [of "?n - 1" xs 0] n by simp
  have "take (Suc (?n - 1)) ?zs = take (?n - 1) ?zs @ [?zs ! (?n - 1)]"
    using n by (intro take_Suc_conv_app_nth) simp
  moreover have "take (Suc (?n - 1)) ?zs = ?zs" using n by simp
  moreover have "?zs ! (?n - 1) = xs ! 0" using n by simp
  ultimately have "?zs = take (?n - 1) ?zs @ [xs ! 0]" by simp
  then have "mset ?zs = add_mset (xs ! 0) (mset (take (?n - 1) ?zs))"
    by (metis mset.simps(2) mset_append union_mset_add_mset_right add.right_neutral mset.simps(1))
  with m show ?thesis by simp
qed

lemma int_length_pred: "xs \<noteq> [] \<Longrightarrow> int (length xs - Suc 0) = int (length xs) - 1"
  by (cases xs) simp_all

lemma PQ_Dequeue_unfold:
  assumes "PQ_inv q" and "pq_items q \<noteq> []"
  shows "PQ_Dequeue zero q =
     (case PQ_sift_down
             (q\<lparr>pq_items := take (length (pq_items q) - 1)
                    ((pq_items q)[0 := pq_items q ! (length (pq_items q) - 1),
                                  length (pq_items q) - 1 := pq_items q ! 0]),
                pq_size := pq_size q - 1\<rparr>)
             0 (int (length (pq_items q) - 1) - 1) of
        Inl p \<Rightarrow> Inl p
      | Inr q3 \<Rightarrow> Inr (q3, pq_items q ! 0, True))"
proof -
  have n: "0 < length (pq_items q)" using assms(2) by simp
  have sz: "pq_size q = int (length (pq_items q))" using assms(1) unfolding PQ_inv_def .
  have e: "nat (int (length (pq_items q)) - 1) = length (pq_items q) - 1" by simp
  have e2: "int (length (pq_items q)) - 1 = int (length (pq_items q) - 1)"
    using assms(2) by (simp add: int_length_pred)
  have s: "swap_pq q 0 (pq_size q - 1) =
     Inr (q\<lparr>pq_items := (pq_items q)[0 := pq_items q ! (length (pq_items q) - 1),
                                        length (pq_items q) - 1 := pq_items q ! 0]\<rparr>)"
    using n by (simp add: sz swap_pq_def at_index_def e)
  have a: "at_index (pq_items q) 0 = Inr (pq_items q ! 0)"
    using n by (simp add: at_index_def)
  have z: "pq_size q \<noteq> 0" using n sz by simp
  show ?thesis
    unfolding PQ_Dequeue_def
    by (simp only: z a s if_False sum.case Let_def)
       (simp add: sz e e2)
qed

lemma PQ_Dequeue_returns:
  assumes "PQ_inv q" and "pq_items q \<noteq> []"
  shows "\<exists>q'. PQ_Dequeue zero q = Inr (q', pq_items q ! 0, True) \<and> PQ_inv q'
           \<and> add_mset (pq_items q ! 0) (mset (pq_items q')) = mset (pq_items q)
           \<and> pq_comparator q' = pq_comparator q"
proof -
  let ?xs = "pq_items q"
  let ?ys = "take (length ?xs - 1) (?xs[0 := ?xs ! (length ?xs - 1), length ?xs - 1 := ?xs ! 0])"
  let ?q2 = "q\<lparr>pq_items := ?ys, pq_size := pq_size q - 1\<rparr>"
  have n: "0 < length ?xs" using assms(2) by simp
  have sz: "pq_size q = int (length ?xs)" using assms(1) unfolding PQ_inv_def .
  have ly: "length ?ys = length ?xs - 1" by simp
  have "\<exists>q'. PQ_sift_down ?q2 0 (int (length (pq_items ?q2)) - 1) = Inr q'
          \<and> mset (pq_items q') = mset (pq_items ?q2) \<and> pq_size q' = pq_size ?q2
          \<and> pq_comparator q' = pq_comparator ?q2"
  proof (cases "?ys = []")
    case True
    then show ?thesis using sift_down_empty [of ?q2] by simp
  next
    case False
    then have "0 < length (pq_items ?q2)" by simp
    from sift_down_returns [OF this] show ?thesis by simp
  qed
  then obtain q' where r: "PQ_sift_down ?q2 0 (int (length ?xs - 1) - 1) = Inr q'"
      "mset (pq_items q') = mset ?ys" "pq_size q' = pq_size q - 1"
      "pq_comparator q' = pq_comparator q"
    by auto
  have "length (pq_items q') = length ?ys" using r(2) by (rule mset_eq_length)
  then have "PQ_inv q'" using r(3) sz assms(2) unfolding PQ_inv_def
    by (simp add: int_length_pred)
  moreover have "PQ_Dequeue zero q = Inr (q', ?xs ! 0, True)"
    using PQ_Dequeue_unfold [OF assms, of zero] r(1) by simp
  moreover have "add_mset (?xs ! 0) (mset (pq_items q')) = mset ?xs"
    using mset_drop_root [OF assms(2)] r(2) by simp
  ultimately show ?thesis using r(4) by simp
qed

lemma drop_root_heap_but_down:
  assumes "is_heap cmp xs"
  shows "heap_but_down cmp
           (take (length xs - 1) (xs[0 := xs ! (length xs - 1), length xs - 1 := xs ! 0])) 0"
  unfolding heap_but_down_def
proof (intro ballI conjI impI)
  let ?ys = "take (length xs - 1) (xs[0 := xs ! (length xs - 1), length xs - 1 := xs ! 0])"
  fix i assume i: "i \<in> {1..<length ?ys}" and p: "(i - 1) div 2 \<noteq> 0"
  then have il: "i < length xs - 1" and i0: "0 < i" by auto
  have pl: "(i - 1) div 2 < length xs - 1" using il by arith
  have "?ys ! i = xs ! i" using il i0 by simp
  moreover have "?ys ! ((i - 1) div 2) = xs ! ((i - 1) div 2)" using pl p by simp
  moreover have "sorts_le cmp (xs ! ((i - 1) div 2)) (xs ! i)"
    using assms il i0 unfolding is_heap_def by auto
  ultimately show "sorts_le cmp (?ys ! ((i - 1) div 2)) (?ys ! i)" by simp
next
  let ?ys = "take (length xs - 1) (xs[0 := xs ! (length xs - 1), length xs - 1 := xs ! 0])"
  fix i :: nat assume "(i - 1) div 2 = 0 \<and> (0::nat) < 0"
  then show "sorts_le cmp (?ys ! ((0 - 1) div 2)) (?ys ! i)" by simp
qed

lemma PQ_Dequeue_ok:
  assumes v: "valid_comparator cmp" and ok: "PQ_ok cmp q" and ne: "pq_items q \<noteq> []"
  shows "\<exists>q'. PQ_Dequeue zero q = Inr (q', pq_items q ! 0, True) \<and> PQ_ok cmp q'
           \<and> add_mset (pq_items q ! 0) (mset (pq_items q')) = mset (pq_items q)"
proof -
  let ?xs = "pq_items q"
  let ?ys = "take (length ?xs - 1) (?xs[0 := ?xs ! (length ?xs - 1), length ?xs - 1 := ?xs ! 0])"
  let ?q2 = "q\<lparr>pq_items := ?ys, pq_size := pq_size q - 1\<rparr>"
  have inv: "PQ_inv q" and c: "pq_comparator q = cmp" and h: "is_heap cmp ?xs"
    using ok unfolding PQ_ok_def by simp_all
  from PQ_Dequeue_returns [OF inv ne, of zero] obtain q' where
    r: "PQ_Dequeue zero q = Inr (q', ?xs ! 0, True)" "PQ_inv q'"
      "add_mset (?xs ! 0) (mset (pq_items q')) = mset ?xs" "pq_comparator q' = pq_comparator q"
    by blast
  have "is_heap cmp (pq_items q')"
  proof (cases "?ys = []")
    case True
    then have "PQ_sift_down ?q2 0 (int (length ?xs - 1) - 1) = Inr ?q2"
      using sift_down_empty [of ?q2] by simp
    then have "q' = ?q2" using PQ_Dequeue_unfold [OF inv ne, of zero] r(1) by simp
    then have "pq_items q' = ?ys" by simp
    with True have "pq_items q' = []" by (simp only:)
    then show ?thesis unfolding is_heap_def by simp
  next
    case False
    then have l: "0 < length (pq_items ?q2)" by simp
    have "\<exists>q''. PQ_sift_down ?q2 (int 0) (int (length (pq_items ?q2)) - 1) = Inr q''
          \<and> is_heap cmp (pq_items q'')
          \<and> mset (pq_items q'') = mset (pq_items ?q2) \<and> pq_size q'' = pq_size ?q2
          \<and> pq_comparator q'' = cmp"
      using drop_root_heap_but_down [OF h] c by (intro sift_down_heap [OF v l]) simp_all
    then obtain q'' where d: "PQ_sift_down ?q2 0 (int (length ?xs - 1) - 1) = Inr q''"
      "is_heap cmp (pq_items q'')" by auto
    then have "q' = q''" using PQ_Dequeue_unfold [OF inv ne, of zero] r(1) by simp
    with d show ?thesis by simp
  qed
  then show ?thesis using r c unfolding PQ_ok_def by simp
qed

lemma PQ_dequeue_n_sorted:
  assumes v: "valid_comparator cmp"
  shows "PQ_ok cmp q \<Longrightarrow> length (pq_items q) = n \<Longrightarrow>
    \<exists>q' ys. PQ_dequeue_n zero q n = Inr (q', ys) \<and> mset ys = mset (pq_items q)
       \<and> sorted_wrt (sorts_le cmp) ys \<and> pq_items q' = [] \<and> PQ_ok cmp q'"
proof (induction n arbitrary: q)
  case 0
  then show ?case by simp
next
  case (Suc n)
  then have ne: "pq_items q \<noteq> []" by auto
  let ?x = "pq_items q ! 0"
  from PQ_Dequeue_ok [OF v Suc.prems(1) ne, of zero] obtain q1 where
    d: "PQ_Dequeue zero q = Inr (q1, ?x, True)" "PQ_ok cmp q1"
      "add_mset ?x (mset (pq_items q1)) = mset (pq_items q)"
    by blast
  have "size (mset (pq_items q)) = Suc (size (mset (pq_items q1)))"
    using d(3) by (metis size_add_mset)
  then have l1: "length (pq_items q1) = n" using Suc.prems(2) by simp
  from Suc.IH [OF d(2) l1] obtain q' ys where
    r: "PQ_dequeue_n zero q1 n = Inr (q', ys)" "mset ys = mset (pq_items q1)"
      "sorted_wrt (sorts_le cmp) ys" "pq_items q' = []" "PQ_ok cmp q'"
    by blast
  have h: "is_heap cmp (pq_items q)" using Suc.prems(1) unfolding PQ_ok_def by simp
  have min: "\<forall>y \<in> set ys. sorts_le cmp ?x y"
  proof
    fix y assume "y \<in> set ys"
    then have "y \<in># mset (pq_items q1)" using r(2) by (metis set_mset_mset)
    then have "y \<in># mset (pq_items q)" using d(3) by (metis add_mset_add_single union_iff)
    then have "y \<in> set (pq_items q)" by simp
    then obtain i where "i < length (pq_items q)" "pq_items q ! i = y"
      by (auto simp: in_set_conv_nth)
    with heap_root_min [OF v h] show "sorts_le cmp ?x y" by blast
  qed
  have "PQ_dequeue_n zero q (Suc n) = Inr (q', ?x # ys)" using d(1) r(1) by simp
  moreover have "mset (?x # ys) = mset (pq_items q)" using r(2) d(3) by simp
  moreover have "sorted_wrt (sorts_le cmp) (?x # ys)" using r(3) min by simp
  ultimately show ?case using r(4) r(5) by blast
qed

lemma PQ_enqueue_values_ok:
  assumes v: "valid_comparator cmp"
  shows "PQ_ok cmp q \<Longrightarrow>
    \<exists>q'. PQ_enqueue_values q xs = Some (Inr q') \<and> PQ_ok cmp q'
       \<and> mset (pq_items q') = mset (pq_items q) + mset xs"
proof (induction xs arbitrary: q)
  case Nil
  then show ?case by simp
next
  case (Cons x xs)
  from PQ_Enqueue_ok [OF v Cons.prems, of x] obtain q1 where
    e: "PQ_Enqueue q x = Some (Inr (q1, True))" "PQ_ok cmp q1"
      "mset (pq_items q1) = add_mset x (mset (pq_items q))"
    by blast
  from Cons.IH [OF e(2)] obtain q' where
    r: "PQ_enqueue_values q1 xs = Some (Inr q')" "PQ_ok cmp q'"
      "mset (pq_items q') = mset (pq_items q1) + mset xs"
    by blast
  show ?case using e r by simp
qed

lemma PQ_ok_empty: "PQ_ok cmp (NewPriorityQueue_empty cmp)"
  by (simp add: PQ_ok_def PQ_inv_def NewPriorityQueue_empty_def is_heap_def)

section \<open>Priority order\<close>

text \<open>On a well-formed queue \<open>Peek\<close> returns the root, and nothing in the queue sorts before it.\<close>

lemma PQ_Peek_minimal:
  assumes v: "valid_comparator cmp" and ok: "PQ_ok cmp q" and ne: "pq_items q \<noteq> []"
  shows "PQ_Peek zero q = Inr (pq_items q ! 0, True)
         \<and> (\<forall>y \<in> set (pq_items q). sorts_le cmp (pq_items q ! 0) y)"
proof -
  have sz: "pq_size q = int (length (pq_items q))" and h: "is_heap cmp (pq_items q)"
    using ok unfolding PQ_ok_def PQ_inv_def by simp_all
  have "PQ_Peek zero q = Inr (pq_items q ! 0, True)"
    using ne sz by (simp add: PQ_Peek_def at_index_def)
  moreover have "\<forall>y \<in> set (pq_items q). sorts_le cmp (pq_items q ! 0) y"
    using heap_root_min [OF v h] by (auto simp: in_set_conv_nth)
  ultimately show ?thesis by blast
qed

lemma valid_comparator_ascending: "valid_comparator ascending"
  unfolding valid_comparator_def ascending_def by auto

text \<open>
  Claim C3. With a comparator that is a three-way comparison of a total preorder, enqueuing
  any finite list of elements into a new \<open>PriorityQueue\<close> and dequeuing as many times as
  there are elements returns: nothing panics, no loop runs forever, and the values come
  out in non-decreasing order under the comparator and are the enqueued elements, each as
  often as it was enqueued. The witness is the run of the specification: \<open>[5, 1, 4, 2, 3]\<close>
  with the numeric ascending comparator gives \<open>[1, 2, 3, 4, 5]\<close>.
\<close>

theorem PriorityQueue_dequeues_in_order:
  assumes "valid_comparator cmp"
  shows "\<exists>ys. PQ_enqueue_dequeue_all cmp zero xs = Some (Inr ys)
           \<and> sorted_wrt (sorts_le cmp) ys \<and> mset ys = mset xs"
proof -
  from PQ_enqueue_values_ok [OF assms PQ_ok_empty, of xs] obtain q where
    q: "NewPriorityQueue cmp xs = Some (Inr q)" "PQ_ok cmp q" "mset (pq_items q) = mset xs"
    unfolding NewPriorityQueue_def by (auto simp: NewPriorityQueue_empty_def)
  have "length (pq_items q) = length xs" using q(3) by (rule mset_eq_length)
  from PQ_dequeue_n_sorted [OF assms q(2) this, of zero] obtain q' ys where
    r: "PQ_dequeue_n zero q (length xs) = Inr (q', ys)" "mset ys = mset (pq_items q)"
      "sorted_wrt (sorts_le cmp) ys"
    by blast
  have "PQ_enqueue_dequeue_all cmp zero xs = Some (Inr ys)"
    unfolding PQ_enqueue_dequeue_all_def using q(1) r(1) by simp
  with r q(3) show ?thesis by simp
qed

theorem PriorityQueue_dequeues_in_order_witness:
  "valid_comparator ascending
   \<and> PQ_enqueue_dequeue_all ascending 0 [5, 1, 4, 2, 3] = Some (Inr [1, 2, 3, 4, 5])
   \<and> sorted_wrt (sorts_le ascending) [1, 2, 3, 4, 5]"
proof -
  from PriorityQueue_dequeues_in_order [OF valid_comparator_ascending, of 0 "[5, 1, 4, 2, 3]"]
  obtain ys where
    ys: "PQ_enqueue_dequeue_all ascending 0 [5, 1, 4, 2, 3] = Some (Inr ys)"
      "sorted_wrt (sorts_le ascending) ys"
    by blast
  have run: "PQ_enqueue_dequeue_all ascending 0 [5, 1, 4, 2, 3] = Some (Inr [1, 2, 3, 4, 5])"
    by code_simp
  with ys have "ys = [1, 2, 3, 4, 5]" by simp
  with ys(2) run valid_comparator_ascending show ?thesis by simp
qed

text \<open>
  Claim C4 says that \<open>Peek\<close> and \<open>Dequeue\<close> return a minimal element after any sequence of
  \<open>Enqueue\<close>, \<open>Dequeue\<close>, \<open>Remove\<close>, \<open>RemoveWhere\<close> and \<open>Clear\<close>. The run below ends in a
  queue where they do not: \<open>Enqueue\<close> of 1, 5 and 2 leaves the slice \<open>[1, 5, 2]\<close>, \<open>Remove(1)\<close>
  compacts it to \<open>[5, 2]\<close> without sifting, and both \<open>Peek\<close> and \<open>Dequeue\<close> then return 5
  while 2, which sorts before 5, is in the queue.
\<close>

theorem RemoveWhere_leaves_heap_broken:
  "map_option (map_sum id pq_items) (NewPriorityQueue ascending [1, 5, 2]) = Some (Inr [1, 5, 2])
   \<and> PQ_ToArray (PQ_Remove \<lparr>pq_size = 3, pq_items = [1, 5, 2], pq_comparator = ascending\<rparr> 1)
       = [5, 2]
   \<and> PQ_Peek 0 (PQ_Remove \<lparr>pq_size = 3, pq_items = [1, 5, 2], pq_comparator = ascending\<rparr> 1)
       = Inr (5, True)
   \<and> map_sum id snd
        (PQ_Dequeue 0 (PQ_Remove \<lparr>pq_size = 3, pq_items = [1, 5, 2], pq_comparator = ascending\<rparr> 1))
       = Inr (5, True)
   \<and> ascending 2 5 < 0"
  by code_simp

section \<open>Operations on any queue whose size field is right\<close>

lemma PQ_Enqueue_inv:
  assumes "PQ_inv q" and "PQ_Enqueue q x = Some r"
  shows "\<exists>q'. r = Inr (q', True) \<and> PQ_inv q'
           \<and> mset (pq_items q') = add_mset x (mset (pq_items q))
           \<and> pq_comparator q' = pq_comparator q"
proof -
  let ?q1 = "q\<lparr>pq_items := pq_items q @ [x], pq_size := pq_size q + 1\<rparr>"
  have sz: "pq_size q = int (length (pq_items q))" using assms(1) unfolding PQ_inv_def .
  from assms(2) obtain r1 where s: "PQ_sift_up ?q1 (pq_size ?q1 - 1) = Some r1"
    unfolding PQ_Enqueue_def Let_def by (auto split: option.splits)
  have "0 \<le> pq_size ?q1 - 1 \<and> pq_size ?q1 - 1 < int (length (pq_items ?q1))" using sz by simp
  with sift_up_partial [OF s] obtain q' where
    r: "r1 = Inr q'" "mset (pq_items q') = mset (pq_items ?q1)" "pq_size q' = pq_size ?q1"
      "pq_comparator q' = pq_comparator ?q1"
    by blast
  have "length (pq_items q') = length (pq_items ?q1)" using r(2) by (rule mset_eq_length)
  then have "PQ_inv q'" using r(3) sz unfolding PQ_inv_def by simp
  moreover have "r = Inr (q', True)"
    using assms(2) s r(1) unfolding PQ_Enqueue_def Let_def by simp
  ultimately show ?thesis using r by simp
qed

lemma PQ_enqueue_values_inv:
  "PQ_inv q \<Longrightarrow> PQ_enqueue_values q xs = Some r \<Longrightarrow>
     \<exists>q'. r = Inr q' \<and> PQ_inv q' \<and> mset (pq_items q') = mset (pq_items q) + mset xs
          \<and> pq_comparator q' = pq_comparator q"
proof (induction xs arbitrary: q)
  case Nil
  then show ?case by auto
next
  case (Cons x xs)
  from Cons.prems(2) obtain r1 where e: "PQ_Enqueue q x = Some r1"
    by (auto split: option.splits)
  from PQ_Enqueue_inv [OF Cons.prems(1) e] obtain q1 where
    q1: "r1 = Inr (q1, True)" "PQ_inv q1" "mset (pq_items q1) = add_mset x (mset (pq_items q))"
      "pq_comparator q1 = pq_comparator q"
    by blast
  have "PQ_enqueue_values q1 xs = Some r" using Cons.prems(2) e q1(1) by simp
  from Cons.IH [OF q1(2) this] q1 show ?case by auto
qed

lemma PQ_Dequeue_empty:
  "PQ_inv q \<Longrightarrow> pq_items q = [] \<Longrightarrow> PQ_Dequeue zero q = Inr (q, zero, False)"
  by (simp add: PQ_inv_def PQ_Dequeue_def)

lemma BQ_put_values_appends:
  "BQ_put_values q xs = Some q' \<Longrightarrow>
     bq_items q' = bq_items q @ xs \<and> bq_size q' = bq_size q + int (length xs)
     \<and> bq_cap q' = bq_cap q"
proof (induction xs arbitrary: q)
  case Nil
  then show ?case by simp
next
  case (Cons v rest)
  let ?q1 = "q\<lparr>bq_items := bq_items q @ [v], bq_size := bq_size q + 1\<rparr>"
  from Cons.prems have "BQ_put_values ?q1 rest = Some q'" by (simp split: if_splits)
  from Cons.IH [OF this] show ?case by simp
qed






section \<open>TryDequeue\<close>



section \<open>Decoding\<close>

text \<open>
  Claim C7 says that \<open>UnmarshalJSON\<close> on malformed input returns a non-nil error. The
  document \<open>[1,\<close> is malformed: the decoder rejects it. \<open>BlockingQueue\<close>,
  \<open>LinkedBlockingQueue\<close>, \<open>PriorityBlockingQueue\<close> and \<open>LinkedList\<close> return the decoder's
  error and keep their contents; \<open>PriorityQueue.UnmarshalJSON\<close> keeps its contents too, but
  returns \<open>nil\<close>.
\<close>

theorem PriorityQueue_UnmarshalJSON_hides_error:
  "unmarshal_ints ''[1,'' = Inl ''unexpected end of JSON input''
   \<and> PQ_UnmarshalJSON unmarshal_ints
        \<lparr>pq_size = 2, pq_items = [1, 2], pq_comparator = ascending\<rparr> ''[1,''
       = Some (Inr (\<lparr>pq_size = 2, pq_items = [1, 2], pq_comparator = ascending\<rparr>, None))
   \<and> BQ_UnmarshalJSON unmarshal_ints \<lparr>bq_items = [1, 2], bq_size = 2, bq_cap = 5\<rparr> ''[1,''
       = Some (\<lparr>bq_items = [1, 2], bq_size = 2, bq_cap = 5\<rparr>, Some ''unexpected end of JSON input'')
   \<and> LBQ_UnmarshalJSON unmarshal_ints \<lparr>lbq_items = [1, 2], lbq_cap = 5\<rparr> ''[1,''
       = Some (\<lparr>lbq_items = [1, 2], lbq_cap = 5\<rparr>, Some ''unexpected end of JSON input'')
   \<and> PBQ_UnmarshalJSON unmarshal_ints
        \<lparr>pbq_items = \<lparr>pq_size = 2, pq_items = [1, 2], pq_comparator = ascending\<rparr>, pbq_cap = 5\<rparr>
        ''[1,''
       = Some (Inr (\<lparr>pbq_items = \<lparr>pq_size = 2, pq_items = [1, 2], pq_comparator = ascending\<rparr>,
                     pbq_cap = 5\<rparr>, Some ''unexpected end of JSON input''))"
  by (simp add: unmarshal_ints_def PQ_UnmarshalJSON_def BQ_UnmarshalJSON_def
      LBQ_UnmarshalJSON_def PBQ_UnmarshalJSON_def)

text \<open>
  Claim C8 says that a successful \<open>UnmarshalJSON\<close> discards what the queue held. A
  \<open>BlockingQueue\<close>, a \<open>LinkedBlockingQueue\<close> and a \<open>LinkedList\<close> (the store of \<open>LinkedQueue\<close>)
  that hold 9 decode \<open>[1,2]\<close> with a \<open>nil\<close> error and then hold \<open>[9, 1, 2]\<close>; a
  \<open>PriorityBlockingQueue\<close>, whose method calls \<open>Clear\<close> first, holds \<open>[1, 2]\<close>.
\<close>

theorem UnmarshalJSON_appends_to_contents:
  "unmarshal_ints ''[1,2]'' = Inr [1, 2]
   \<and> BQ_UnmarshalJSON unmarshal_ints \<lparr>bq_items = [9], bq_size = 1, bq_cap = 5\<rparr> ''[1,2]''
       = Some (\<lparr>bq_items = [9, 1, 2], bq_size = 3, bq_cap = 5\<rparr>, None)
   \<and> LBQ_UnmarshalJSON unmarshal_ints \<lparr>lbq_items = [9], lbq_cap = 5\<rparr> ''[1,2]''
       = Some (\<lparr>lbq_items = [9, 1, 2], lbq_cap = 5\<rparr>, None)
   \<and> LL_UnmarshalJSON unmarshal_ints [9] ''[1,2]'' = ([9, 1, 2], None)
   \<and> map_option (map_sum id (\<lambda>(b, e). (PBQ_ToArray b, e)))
        (PBQ_UnmarshalJSON unmarshal_ints
           \<lparr>pbq_items = \<lparr>pq_size = 1, pq_items = [9], pq_comparator = ascending\<rparr>, pbq_cap = 5\<rparr>
           ''[1,2]'')
       = Some (Inr ([1, 2], None))"
  by code_simp


section \<open>Encoding, then decoding into a fresh queue\<close>

text \<open>
  The operations of \<open>BlockingQueue\<close> keep the size within a capacity that is not negative:
  the queues that the methods can build satisfy the capacity condition of the next theorem.
\<close>

lemma BQ_within_capacity:
  assumes "BQ_inv q" and "bq_size q \<le> bq_cap q \<or> bq_cap q < 0"
  shows "bq_size (fst (BQ_TryEnqueue q v)) \<le> bq_cap (fst (BQ_TryEnqueue q v))
           \<or> bq_cap (fst (BQ_TryEnqueue q v)) < 0"
    and "BQ_Enqueue q v = Some r \<Longrightarrow> bq_size (fst r) \<le> bq_cap (fst r) \<or> bq_cap (fst r) < 0"
    and "BQ_TryDequeue zero q = Inr (q', x, ok) \<Longrightarrow> bq_size q' \<le> bq_cap q' \<or> bq_cap q' < 0"
    and "bq_size (BQ_RemoveWhere q callback) \<le> bq_cap (BQ_RemoveWhere q callback)
           \<or> bq_cap (BQ_RemoveWhere q callback) < 0"
    and "bq_size (BQ_Clear q) \<le> bq_cap (BQ_Clear q) \<or> bq_cap (BQ_Clear q) < 0"
    and "BQ_put_values q xs = Some q'' \<Longrightarrow> bq_size q'' \<le> bq_cap q'' \<or> bq_cap q'' < 0"
proof -
  show "bq_size (fst (BQ_TryEnqueue q v)) \<le> bq_cap (fst (BQ_TryEnqueue q v))
           \<or> bq_cap (fst (BQ_TryEnqueue q v)) < 0"
    using assms(2) by (auto simp: BQ_TryEnqueue_def)
  show "BQ_Enqueue q v = Some r \<Longrightarrow> bq_size (fst r) \<le> bq_cap (fst r) \<or> bq_cap (fst r) < 0"
    using assms(2) by (auto simp: BQ_Enqueue_def split: if_splits)
  show "BQ_TryDequeue zero q = Inr (q', x, ok) \<Longrightarrow> bq_size q' \<le> bq_cap q' \<or> bq_cap q' < 0"
    using assms by (auto simp: BQ_TryDequeue_def BQ_inv_def split: if_splits list.splits)
  have le: "int (length (filter (\<lambda>x. \<not> callback x) (bq_items q))) \<le> int (length (bq_items q))"
    by simp
  show "bq_size (BQ_RemoveWhere q callback) \<le> bq_cap (BQ_RemoveWhere q callback)
           \<or> bq_cap (BQ_RemoveWhere q callback) < 0"
  proof (cases "bq_cap q < 0")
    case True
    then show ?thesis by (simp add: BQ_RemoveWhere_def Let_def)
  next
    case False
    with le assms have "int (length (filter (\<lambda>x. \<not> callback x) (bq_items q))) \<le> bq_cap q"
      unfolding BQ_inv_def by linarith
    then show ?thesis by (simp add: BQ_RemoveWhere_def Let_def keep_items_filter)
  qed
  show "bq_size (BQ_Clear q) \<le> bq_cap (BQ_Clear q) \<or> bq_cap (BQ_Clear q) < 0"
    using assms by (auto simp: BQ_Clear_def BQ_inv_def)
  show "BQ_put_values q xs = Some q'' \<Longrightarrow> bq_size q'' \<le> bq_cap q'' \<or> bq_cap q'' < 0"
    using assms(2)
  proof (induction xs arbitrary: q)
    case Nil
    then show ?case by simp
  next
    case (Cons a xs)
    let ?q1 = "q\<lparr>bq_items := bq_items q @ [a], bq_size := bq_size q + 1\<rparr>"
    from Cons.prems(1) have ne: "bq_size q \<noteq> bq_cap q" and p: "BQ_put_values ?q1 xs = Some q''"
      by (auto split: if_splits)
    have "bq_size ?q1 \<le> bq_cap ?q1 \<or> bq_cap ?q1 < 0" using Cons.prems(2) ne by auto
    from Cons.IH [OF p this] show ?case .
  qed
qed





section \<open>The size field\<close>

lemma BQ_inv_TryEnqueue: "BQ_inv q \<Longrightarrow> BQ_inv (fst (BQ_TryEnqueue q v))"
  by (simp add: BQ_inv_def BQ_TryEnqueue_def)

lemma BQ_inv_TryDequeue:
  "BQ_inv q \<Longrightarrow> \<exists>q' x ok. BQ_TryDequeue zero q = Inr (q', x, ok) \<and> BQ_inv q'"
  by (cases "bq_items q") (auto simp: BQ_inv_def BQ_TryDequeue_def)

lemma BQ_inv_Enqueue: "BQ_inv q \<Longrightarrow> BQ_Enqueue q v = Some r \<Longrightarrow> BQ_inv (fst r)"
  by (auto simp: BQ_inv_def BQ_Enqueue_def split: if_splits)

lemma BQ_inv_Dequeue:
  "BQ_inv q \<Longrightarrow> BQ_Dequeue q = Some r \<Longrightarrow> \<exists>q' x ok. r = Inr (q', x, ok) \<and> BQ_inv q'"
  by (cases "bq_items q") (auto simp: BQ_inv_def BQ_Dequeue_def split: if_splits)

lemma BQ_inv_UnmarshalJSON:
  assumes "BQ_inv q" and "BQ_UnmarshalJSON unmarshal q d = Some r"
  shows "BQ_inv (fst r)"
proof (cases "unmarshal d")
  case (Inl err)
  then show ?thesis using assms by (auto simp: BQ_UnmarshalJSON_def)
next
  case (Inr vals)
  with assms(2) obtain q' where p: "BQ_put_values q vals = Some q'" and r: "r = (q', None)"
    by (auto simp: BQ_UnmarshalJSON_def)
  from BQ_put_values_appends [OF p] assms(1) r show ?thesis by (simp add: BQ_inv_def)
qed

lemma PQ_inv_Dequeue:
  assumes "PQ_inv h"
  shows "\<exists>h' x ok. PQ_Dequeue zero h = Inr (h', x, ok) \<and> PQ_inv h'"
proof (cases "pq_items h = []")
  case True
  then show ?thesis using PQ_Dequeue_empty [OF assms True, of zero] assms by blast
next
  case False
  from PQ_Dequeue_returns [OF assms False, of zero] show ?thesis by blast
qed

lemma PQ_inv_UnmarshalJSON:
  assumes "PQ_inv h" and "PQ_UnmarshalJSON unmarshal h d = Some r"
  shows "\<exists>h' e. r = Inr (h', e) \<and> PQ_inv h'"
proof (cases "unmarshal d")
  case (Inl err)
  then show ?thesis using assms by (auto simp: PQ_UnmarshalJSON_def)
next
  case (Inr vals)
  with assms(2) obtain r1 where e: "PQ_enqueue_values (PQ_Clear h) vals = Some r1"
    by (auto simp: PQ_UnmarshalJSON_def split: option.splits)
  have "PQ_inv (PQ_Clear h)" by (simp add: PQ_inv_def PQ_Clear_def)
  from PQ_enqueue_values_inv [OF this e] obtain h' where "r1 = Inr h'" "PQ_inv h'" by blast
  then show ?thesis using assms(2) Inr e by (auto simp: PQ_UnmarshalJSON_def)
qed

text \<open>
  Claim C10. In \<open>BlockingQueue\<close> and in \<open>PriorityQueue\<close> the size field is the length of the
  slice in a new queue, and every operation that returns leaves it so: \<open>TryEnqueue\<close>,
  \<open>TryDequeue\<close>, \<open>Enqueue\<close>, \<open>Dequeue\<close>, \<open>Remove\<close>, \<open>RemoveWhere\<close>, \<open>Clear\<close> and
  \<open>UnmarshalJSON\<close> (and none of them panics on a queue where it holds). So \<open>Count\<close> is the
  number of elements and \<open>IsEmpty\<close> holds exactly when there is none.
\<close>

theorem size_field_counts_elements:
  assumes "BQ_inv q" and "PQ_inv h"
  shows "BQ_inv (NewBlockingQueue c :: 'a BlockingQueue)
    \<and> BQ_inv (fst (BQ_TryEnqueue q v))
    \<and> (\<exists>q' x ok. BQ_TryDequeue zero q = Inr (q', x, ok) \<and> BQ_inv q')
    \<and> (\<forall>r. BQ_Enqueue q v = Some r \<longrightarrow> BQ_inv (fst r))
    \<and> (\<forall>r. BQ_Dequeue q = Some r \<longrightarrow> (\<exists>q' x ok. r = Inr (q', x, ok) \<and> BQ_inv q'))
    \<and> BQ_inv (BQ_Remove q v) \<and> BQ_inv (BQ_RemoveWhere q callback) \<and> BQ_inv (BQ_Clear q)
    \<and> (\<forall>r. BQ_UnmarshalJSON unmarshal q d = Some r \<longrightarrow> BQ_inv (fst r))
    \<and> BQ_Count q = int (length (BQ_ToArray q)) \<and> (BQ_IsEmpty q \<longleftrightarrow> BQ_ToArray q = [])
    \<and> PQ_inv (NewPriorityQueue_empty cmp :: 'a PriorityQueue)
    \<and> (\<forall>r. NewPriorityQueue cmp xs = Some r \<longrightarrow> (\<exists>h'. r = Inr h' \<and> PQ_inv h'))
    \<and> (\<forall>r. PQ_Enqueue h v = Some r \<longrightarrow> (\<exists>h'. r = Inr (h', True) \<and> PQ_inv h'))
    \<and> (\<exists>h' x ok. PQ_Dequeue zero h = Inr (h', x, ok) \<and> PQ_inv h')
    \<and> PQ_inv (PQ_Remove h v) \<and> PQ_inv (PQ_RemoveWhere h callback) \<and> PQ_inv (PQ_Clear h)
    \<and> (\<forall>r. PQ_UnmarshalJSON unmarshal h d = Some r \<longrightarrow> (\<exists>h' e. r = Inr (h', e) \<and> PQ_inv h'))
    \<and> PQ_Count h = int (length (PQ_ToArray h)) \<and> (PQ_IsEmpty h \<longleftrightarrow> PQ_ToArray h = [])"
proof -
  have b1: "BQ_inv (NewBlockingQueue c :: 'a BlockingQueue)"
    by (simp add: BQ_inv_def NewBlockingQueue_def)
  have b2: "BQ_inv (BQ_Remove q v)" "BQ_inv (BQ_RemoveWhere q callback)" "BQ_inv (BQ_Clear q)"
    by (simp_all add: BQ_inv_def BQ_Remove_def BQ_RemoveWhere_def BQ_Clear_def Let_def)
  have b3: "BQ_Count q = int (length (BQ_ToArray q))" "BQ_IsEmpty q \<longleftrightarrow> BQ_ToArray q = []"
    using assms(1) by (simp_all add: BQ_inv_def BQ_Count_def BQ_IsEmpty_def BQ_ToArray_def)
  have p1: "PQ_inv (NewPriorityQueue_empty cmp :: 'a PriorityQueue)"
    by (simp add: PQ_inv_def NewPriorityQueue_empty_def)
  have p2: "PQ_inv (PQ_Remove h v)" "PQ_inv (PQ_RemoveWhere h callback)" "PQ_inv (PQ_Clear h)"
    by (simp_all add: PQ_inv_def PQ_Remove_def PQ_RemoveWhere_def PQ_Clear_def Let_def)
  have p3: "PQ_Count h = int (length (PQ_ToArray h))" "PQ_IsEmpty h \<longleftrightarrow> PQ_ToArray h = []"
    using assms(2) by (simp_all add: PQ_inv_def PQ_Count_def PQ_IsEmpty_def PQ_ToArray_def)
  have p4: "\<forall>r. NewPriorityQueue cmp xs = Some r \<longrightarrow> (\<exists>h'. r = Inr h' \<and> PQ_inv h')"
    using PQ_enqueue_values_inv [OF p1, of xs] unfolding NewPriorityQueue_def by blast
  have p5: "\<forall>r. PQ_Enqueue h v = Some r \<longrightarrow> (\<exists>h'. r = Inr (h', True) \<and> PQ_inv h')"
    using PQ_Enqueue_inv [OF assms(2), of v] by blast
  have p6: "\<forall>r. PQ_UnmarshalJSON unmarshal h d = Some r \<longrightarrow> (\<exists>h' e. r = Inr (h', e) \<and> PQ_inv h')"
    using PQ_inv_UnmarshalJSON [OF assms(2), of unmarshal d] by blast
  have b4: "\<forall>r. BQ_Enqueue q v = Some r \<longrightarrow> BQ_inv (fst r)"
    using BQ_inv_Enqueue [OF assms(1), of v] by blast
  have b5: "\<forall>r. BQ_Dequeue q = Some r \<longrightarrow> (\<exists>q' x ok. r = Inr (q', x, ok) \<and> BQ_inv q')"
    using BQ_inv_Dequeue [OF assms(1)] by blast
  have b6: "\<forall>r. BQ_UnmarshalJSON unmarshal q d = Some r \<longrightarrow> BQ_inv (fst r)"
    using BQ_inv_UnmarshalJSON [OF assms(1), of unmarshal d] by blast
  note b7 = BQ_inv_TryEnqueue [OF assms(1), of v] BQ_inv_TryDequeue [OF assms(1), of zero]
  note p7 = PQ_inv_Dequeue [OF assms(2), of zero]
  from b1 b2 b3 b4 b5 b6 b7 p1 p2 p3 p4 p5 p6 p7 show ?thesis by (intro conjI)
qed

theorem size_field_counts_elements_witness:
  "BQ_inv \<lparr>bq_items = [1::int], bq_size = 1, bq_cap = 2\<rparr>
   \<and> PQ_inv \<lparr>pq_size = 3, pq_items = [1, 5, 2::int], pq_comparator = ascending\<rparr>
   \<and> BQ_inv (fst (BQ_TryEnqueue \<lparr>bq_items = [1::int], bq_size = 1, bq_cap = 2\<rparr> 7))
   \<and> PQ_inv (PQ_Remove \<lparr>pq_size = 3, pq_items = [1, 5, 2::int], pq_comparator = ascending\<rparr> 7)
   \<and> BQ_Count \<lparr>bq_items = [1::int], bq_size = 1, bq_cap = 2\<rparr>
       = int (length (BQ_ToArray \<lparr>bq_items = [1::int], bq_size = 1, bq_cap = 2\<rparr>))"
proof -
  have i1: "BQ_inv \<lparr>bq_items = [1::int], bq_size = 1, bq_cap = 2\<rparr>" by (simp add: BQ_inv_def)
  have i2: "PQ_inv \<lparr>pq_size = 3, pq_items = [1, 5, 2::int], pq_comparator = ascending\<rparr>"
    by (simp add: PQ_inv_def)
  note t = size_field_counts_elements [OF i1 i2, where c = 0 and v = 7 and zero = 0
      and callback = "\<lambda>x. x = 1" and unmarshal = unmarshal_ints and d = "''[1,2]''"
      and cmp = ascending and xs = "[1]"]
  from t have a: "BQ_inv (fst (BQ_TryEnqueue \<lparr>bq_items = [1::int], bq_size = 1, bq_cap = 2\<rparr> 7))"
    by blast
  from t have b: "PQ_inv (PQ_Remove \<lparr>pq_size = 3, pq_items = [1, 5, 2::int], pq_comparator = ascending\<rparr> 7)"
    by blast
  from t have c: "BQ_Count \<lparr>bq_items = [1::int], bq_size = 1, bq_cap = 2\<rparr>
       = int (length (BQ_ToArray \<lparr>bq_items = [1::int], bq_size = 1, bq_cap = 2\<rparr>))"
    by blast
  from i1 i2 a b c show ?thesis by blast
qed

end
